theory Spec2Isabelle
  imports Main "HOL-Library.Multiset" "HOL-Library.Product_Lexorder"
begin

section \<open>JavaScript strings and arrays\<close>

text \<open>
  A JavaScript string is modelled as a \<^typ>\<open>string\<close>, one \<^typ>\<open>char\<close> per code unit; a
  \<open>Buffer\<close> is a \<^typ>\<open>string\<close> too, one \<^typ>\<open>char\<close> per byte.  JavaScript numbers
  that hold line numbers, lengths and counters are modelled as unbounded integers.
\<close>

datatype js_error =
    TypeError
  | StartLineError int
  | ReadFileError
  | UnopenedFileError string
  | WriteError
  | MissingContentLength
  | ParseFailure
  | ConnectionClosed
  | MarshalError
  | StreamError

definition LF :: char where
  "LF = CHR 0x0A"

definition CR :: char where
  "CR = CHR 0x0D"

definition startsWith :: "string \<Rightarrow> string \<Rightarrow> bool" where
  "startsWith s p = (take (length p) s = p)"

definition endsWith :: "string \<Rightarrow> string \<Rightarrow> bool" where
  "endsWith s p = (length p \<le> length s \<and> drop (length s - length p) s = p)"

text \<open>\<open>s.indexOf(p)\<close>: the first index at which \<open>p\<close> occurs in \<open>s\<close>, or \<open>-1\<close>.\<close>

fun indexOf :: "string \<Rightarrow> string \<Rightarrow> int" where
  "indexOf [] p = (if p = [] then 0 else - 1)"
| "indexOf (c # cs) p =
     (if startsWith (c # cs) p then 0
      else (let r = indexOf cs p in if r < 0 then - 1 else r + 1))"

definition str_includes :: "string \<Rightarrow> string \<Rightarrow> bool" where
  "str_includes s p = (0 \<le> indexOf s p)"

text \<open>\<open>s.substring(a)\<close> and \<open>s.substring(0, b)\<close>; a negative argument counts as \<open>0\<close>.\<close>

definition substringFrom :: "string \<Rightarrow> int \<Rightarrow> string" where
  "substringFrom s a = drop (nat a) s"

definition substringTo :: "string \<Rightarrow> int \<Rightarrow> string" where
  "substringTo s b = take (nat b) s"

text \<open>\<open>s.split('\n')\<close> and \<open>s.split('\r\n')\<close>; the result is never empty.\<close>

fun split_lf :: "string \<Rightarrow> string list" where
  "split_lf [] = [[]]"
| "split_lf (c # cs) =
     (if c = LF then [] # split_lf cs
      else (case split_lf cs of [] \<Rightarrow> [[c]] | l # ls \<Rightarrow> (c # l) # ls))"

fun split_crlf :: "string \<Rightarrow> string list" where
  "split_crlf [] = [[]]"
| "split_crlf [c] = [[c]]"
| "split_crlf (c # d # cs) =
     (if c = CR \<and> d = LF then [] # split_crlf cs
      else (case split_crlf (d # cs) of [] \<Rightarrow> [[c]] | l # ls \<Rightarrow> (c # l) # ls))"

text \<open>\<open>xs.join('\n')\<close>.\<close>

fun join_lf :: "string list \<Rightarrow> string" where
  "join_lf [] = []"
| "join_lf [l] = l"
| "join_lf (l # m # ls) = l @ LF # join_lf (m # ls)"

text \<open>\<open>xs.slice(a, b)\<close>: a negative index counts from the end, both are clamped.\<close>

definition slice :: "'a list \<Rightarrow> int \<Rightarrow> int \<Rightarrow> 'a list" where
  "slice xs a b =
     (let n = int (length xs);
          k = (if a < 0 then max (n + a) 0 else min a n);
          f = (if b < 0 then max (n + b) 0 else min b n)
      in take (nat (f - k)) (drop (nat k) xs))"

text \<open>
  \<open>s.trim()\<close> removes white space at both ends; of the code units the model has, the
  white space is tab, line feed, vertical tab, form feed, carriage return, space and the
  no-break space.
\<close>

definition isWhiteSpace :: "char \<Rightarrow> bool" where
  "isWhiteSpace c = (c \<in> set [CHR 0x09, CHR 0x0A, CHR 0x0B, CHR 0x0C, CHR 0x0D, CHR 0x20, CHR 0xA0])"

definition trim :: "string \<Rightarrow> string" where
  "trim s = rev (dropWhile isWhiteSpace (rev (dropWhile isWhiteSpace s)))"

text \<open>\<open>n.toString()\<close> for an integer, in decimal.\<close>

definition digitChar :: "nat \<Rightarrow> char" where
  "digitChar d = ''0123456789'' ! d"

function digits :: "nat \<Rightarrow> string" where
  "digits n = (if n < 10 then [digitChar n] else digits (n div 10) @ [digitChar (n mod 10)])"
  by pat_completeness auto
termination
  by (relation "measure id") auto

declare digits.simps [simp del]

definition toString :: "int \<Rightarrow> string" where
  "toString i = (if i < 0 then CHR ''-'' # digits (nat (- i)) else digits (nat i))"

text \<open>\<open>s.padStart(w, ' ')\<close>.\<close>

definition padStart :: "string \<Rightarrow> nat \<Rightarrow> string" where
  "padStart s w = replicate (w - length s) (CHR '' '') @ s"

section \<open>LSP protocol types\<close>

record position =
  line :: int
  character :: int

record lsp_range =
  range_start :: position
  range_end :: position

text \<open>
  A JSON object of the shape \<open>Location\<close> or \<open>{ uri }\<close>: a field that the object does not
  have is \<open>None\<close>.
\<close>

record location =
  uri :: "string option"
  range :: "lsp_range option"

text \<open>\<open>SymbolInformation | WorkspaceSymbol\<close>, as received from the server.\<close>

record raw_symbol =
  sym_name :: string
  sym_kind :: "int option"
  sym_location :: "location option"
  sym_containerName :: "string option"

text \<open>\<open>SymbolKind.Method\<close> of the LSP types.\<close>

definition Method :: int where
  "Method = 6"

section \<open>Symbol abstraction\<close>

datatype isymbol = SymbolInformationWrapper raw_symbol | WorkspaceSymbolWrapper raw_symbol

definition zeroRange :: lsp_range where
  "zeroRange = \<lparr>range_start = \<lparr>line = 0, character = 0\<rparr>, range_end = \<lparr>line = 0, character = 0\<rparr>\<rparr>"

fun getName :: "isymbol \<Rightarrow> string" where
  "getName (SymbolInformationWrapper s) = sym_name s"
| "getName (WorkspaceSymbolWrapper s) = sym_name s"

fun getKind :: "isymbol \<Rightarrow> int option" where
  "getKind (SymbolInformationWrapper s) = sym_kind s"
| "getKind (WorkspaceSymbolWrapper s) = sym_kind s"

text \<open>
  \<open>getLocation\<close>: \<open>Inr None\<close> is the value \<open>undefined\<close>; \<open>'range' in location\<close> on a
  missing location raises a \<open>TypeError\<close>.
\<close>

fun getLocation :: "isymbol \<Rightarrow> js_error + location option" where
  "getLocation (SymbolInformationWrapper s) = Inr (sym_location s)"
| "getLocation (WorkspaceSymbolWrapper s) =
     (case sym_location s of
        None \<Rightarrow> Inl TypeError
      | Some l \<Rightarrow>
          (if range l \<noteq> None then Inr (Some l)
           else Inr (Some \<lparr>uri = uri l, range = Some zeroRange\<rparr>)))"

definition wrapSymbol :: "raw_symbol \<Rightarrow> isymbol" where
  "wrapSymbol s =
     (if sym_location s \<noteq> None \<and> uri (the (sym_location s)) \<noteq> None
      then SymbolInformationWrapper s
      else WorkspaceSymbolWrapper s)"

section \<open>Definition tool: match policy\<close>

text \<open>
  The loop of \<open>readDefinition\<close> up to the point where a symbol is found: a symbol on which
  the loop executes \<open>continue\<close> is skipped, the others are kept in order.
\<close>

definition skipped :: "string \<Rightarrow> isymbol \<Rightarrow> bool" where
  "skipped symbolName symb =
     (if str_includes symbolName ''.'' then getName symb \<noteq> symbolName
      else if getKind symb = Some Method then
        \<not> endsWith (getName symb) (''::'' @ symbolName) \<and>
        \<not> endsWith (getName symb) (''.'' @ symbolName) \<and>
        getName symb \<noteq> symbolName
      else getName symb \<noteq> symbolName)"

fun foundSymbols :: "string \<Rightarrow> raw_symbol list \<Rightarrow> isymbol list" where
  "foundSymbols symbolName [] = []"
| "foundSymbols symbolName (rawSymbol # results) =
     (let symb = wrapSymbol rawSymbol
      in if skipped symbolName symb then foundSymbols symbolName results
         else symb # foundSymbols symbolName results)"

text \<open>A Method symbol with the given name, as a language server reports it.\<close>

definition methodSymbol :: "string \<Rightarrow> raw_symbol" where
  "methodSymbol n =
     \<lparr>sym_name = n, sym_kind = Some Method,
      sym_location = Some \<lparr>uri = Some ''file:///a.ts'', range = Some zeroRange\<rparr>,
      sym_containerName = None\<rparr>"

section \<open>Definition tool: range expansion\<close>

definition isCommentStart :: "string \<Rightarrow> bool" where
  "isCommentStart prevLine =
     (startsWith prevLine ''//'' \<or> startsWith prevLine ''/*'' \<or> startsWith prevLine ''*'' \<or>
      startsWith prevLine ''#'' \<or> startsWith prevLine ''@'')"

text \<open>
  The upward loop of \<open>getFullDefinition\<close>; \<open>lines[startLine - 1].trim()\<close> raises a
  \<open>TypeError\<close> when the line does not exist.
\<close>

function expandUp :: "string list \<Rightarrow> int \<Rightarrow> js_error + int" where
  "expandUp lines startLine =
     (if startLine > 0 then
        (if startLine - 1 < int (length lines) then
           (let prevLine = trim (lines ! nat (startLine - 1))
            in if isCommentStart prevLine then expandUp lines (startLine - 1)
               else Inr startLine)
         else Inl TypeError)
      else Inr startLine)"
  by pat_completeness auto
termination
  by (relation "measure (\<lambda>(lines, startLine). nat startLine)") auto

declare expandUp.simps [simp del]

record scan_state =
  braceCount :: int
  inString :: bool
  stringChar :: "char option"

definition initialScan :: scan_state where
  "initialScan = \<lparr>braceCount = 0, inString = False, stringChar = None\<rparr>"

text \<open>
  The inner loop over the characters of one line; \<open>prev\<close> is \<open>line[j - 1]\<close>, \<open>None\<close> at
  \<open>j = 0\<close>.
\<close>

fun scanLine :: "char option \<Rightarrow> scan_state \<Rightarrow> string \<Rightarrow> scan_state" where
  "scanLine prev st [] = st"
| "scanLine prev st (c # cs) =
     (let st1 =
        (if (c = CHR 0x22 \<or> c = CHR 0x27) \<and> (prev = None \<or> prev \<noteq> Some (CHR 0x5C)) then
           (if \<not> inString st then st\<lparr>inString := True, stringChar := Some c\<rparr>
            else if Some c = stringChar st then st\<lparr>inString := False\<rparr>
            else st)
         else st);
          st2 =
        (if \<not> inString st1 then
           st1\<lparr>braceCount := braceCount st1 + (if c = CHR ''{'' then 1 else 0)
                                             - (if c = CHR ''}'' then 1 else 0)\<rparr>
         else st1)
      in scanLine (Some c) st2 cs)"

text \<open>
  The downward loop: \<open>i\<close> runs from the expanded start while \<open>i <= endLine\<close> and
  \<open>i < lines.length\<close>; the result is the final \<open>endLine\<close>.
\<close>

function expandDown :: "string list \<Rightarrow> int \<Rightarrow> int \<Rightarrow> int \<Rightarrow> scan_state \<Rightarrow> js_error + int" where
  "expandDown lines origStart endLine i st =
     (if i \<le> endLine \<and> i < int (length lines) then
        (if i < 0 then Inl TypeError
         else (let st' = scanLine None st (lines ! nat i)
               in if braceCount st' = 0 \<and> i > origStart then Inr i
                  else expandDown lines origStart endLine (i + 1) st'))
      else Inr endLine)"
  by pat_completeness auto
termination
  by (relation "measure (\<lambda>(lines, origStart, endLine, i, st). nat (endLine + 1 - i))") auto

declare expandDown.simps [simp del]

text \<open>\<open>lines[i]?.length || 0\<close>.\<close>

definition lengthAt :: "string list \<Rightarrow> int \<Rightarrow> int" where
  "lengthAt lines i = (if 0 \<le> i \<and> i < int (length lines) then int (length (lines ! nat i)) else 0)"

text \<open>
  \<open>getFullDefinition\<close> on the content read from the file: the definition text and the
  range of the updated location.
\<close>

definition getFullDefinition :: "string \<Rightarrow> lsp_range \<Rightarrow> js_error + (string \<times> lsp_range)" where
  "getFullDefinition content rng =
     (let lines = split_lf content
      in case expandUp lines (line (range_start rng)) of
           Inl e \<Rightarrow> Inl e
         | Inr startLine \<Rightarrow>
             (case expandDown lines (line (range_start rng)) (line (range_end rng)) startLine initialScan of
                Inl e \<Rightarrow> Inl e
              | Inr endLine \<Rightarrow>
                  Inr (join_lf (slice lines startLine (endLine + 1)),
                       \<lparr>range_start = \<lparr>line = startLine, character = 0\<rparr>,
                        range_end = \<lparr>line = endLine, character = lengthAt lines endLine\<rparr>\<rparr>)))"

text \<open>The four-line file of the range-expansion scenario.\<close>

definition exampleFile :: string where
  "exampleFile = join_lf [''// doc'', ''function f() {'', ''  return 1;'', ''}'']"

section \<open>Workspace watcher\<close>

unbundle bit_operations_syntax

datatype FileChangeType = Created | Changed | Deleted

definition WatchKind_Create :: int where
  "WatchKind_Create = 1"

definition WatchKind_Change :: int where
  "WatchKind_Change = 2"

definition WatchKind_Delete :: int where
  "WatchKind_Delete = 4"

text \<open>
  A registered glob pattern is a string, an object with a \<open>pattern\<close> field, or anything
  else.
\<close>

datatype glob_pattern = PatternString string | RelativePattern string | OtherPattern

record WatcherPattern =
  globPattern :: glob_pattern
  kind :: "int option"

text \<open>
  \<open>matchGlob\<close>, on \<open>path.relative(workspacePath, filePath)\<close>, which the platform
  computes.
\<close>

definition matchGlob :: "string \<Rightarrow> string \<Rightarrow> bool" where
  "matchGlob relativePath pattern =
     (let normalizedPath = map (\<lambda>c. if c = CHR 0x5C then CHR ''/'' else c) relativePath
      in if pattern = ''**/*'' then True
         else if startsWith pattern ''**/'' \<and> startsWith (substringFrom pattern 3) ''*.''
           then endsWith normalizedPath (substringFrom (substringFrom pattern 3) 1)
         else if startsWith pattern ''*.''
           then endsWith normalizedPath (substringFrom pattern 1)
         else False)"

fun matchesPattern :: "string \<Rightarrow> glob_pattern \<Rightarrow> bool" where
  "matchesPattern relativePath (PatternString p) = matchGlob relativePath p"
| "matchesPattern relativePath (RelativePattern p) = matchGlob relativePath p"
| "matchesPattern relativePath OtherPattern = False"

definition allKinds :: int where
  "allKinds = WatchKind_Create OR WatchKind_Change OR WatchKind_Delete"

fun checkRegistrations :: "string \<Rightarrow> WatcherPattern list \<Rightarrow> bool \<times> int" where
  "checkRegistrations relativePath [] = (False, 0)"
| "checkRegistrations relativePath (reg # regs) =
     (if matchesPattern relativePath (globPattern reg)
      then (True, case kind reg of None \<Rightarrow> allKinds | Some k \<Rightarrow> k)
      else checkRegistrations relativePath regs)"

definition isPathWatched :: "WatcherPattern list \<Rightarrow> string \<Rightarrow> bool \<times> int" where
  "isPathWatched registrations relativePath =
     (if length registrations = 0 then (True, allKinds)
      else checkRegistrations relativePath registrations)"

text \<open>
  What \<open>handleFileEvent\<close> starts, in order.  \<open>excluded\<close> is the result of
  \<open>shouldExcludeFile\<close>, which consults the file system and the gitignore matcher, and
  \<open>isOpen\<close> the result of \<open>client.isFileOpen\<close>.
\<close>

datatype watcher_action =
    OpenFile string
  | DebounceNotifyChange string
  | DebounceFileEvent string FileChangeType

definition handleFileEvent ::
  "WatcherPattern list \<Rightarrow> bool \<Rightarrow> bool \<Rightarrow> string \<Rightarrow> string \<Rightarrow> FileChangeType \<Rightarrow> watcher_action list" where
  "handleFileEvent registrations excluded isOpen filePath relativePath changeType =
     (if excluded then []
      else (let (watched, k) = isPathWatched registrations relativePath
            in if \<not> watched then []
               else if changeType = Created \<and> k AND WatchKind_Create = 0 then []
               else if changeType = Changed \<and> k AND WatchKind_Change = 0 then []
               else if changeType = Deleted \<and> k AND WatchKind_Delete = 0 then []
               else (if changeType = Created then [OpenFile filePath] else []) @
                    (if changeType = Changed \<and> isOpen then [DebounceNotifyChange filePath]
                     else [DebounceFileEvent filePath changeType])))"

text \<open>Two registrations, as a language server sends them.\<close>

definition tsRegistration :: WatcherPattern where
  "tsRegistration = \<lparr>globPattern = PatternString ''**/*.ts'', kind = None\<rparr>"

definition goRegistration :: WatcherPattern where
  "goRegistration = \<lparr>globPattern = RelativePattern ''*.go'', kind = Some 2\<rparr>"

section \<open>References tool: context lines\<close>

text \<open>
  A JavaScript \<open>Set<number>\<close> keeps its elements in insertion order: it is modelled as
  the list of its elements, without repetition, and \<open>add\<close> appends an element that is not
  yet there.
\<close>

definition set_add :: "int \<Rightarrow> int list \<Rightarrow> int list" where
  "set_add x s = (if x \<in> set s then s else s @ [x])"

text \<open>\<open>for (let i = lo; i <= hi; i++) linesToShow.add(i)\<close>.\<close>

function addUpTo :: "int \<Rightarrow> int \<Rightarrow> int list \<Rightarrow> int list" where
  "addUpTo i hi s = (if i \<le> hi then addUpTo (i + 1) hi (set_add i s) else s)"
  by pat_completeness auto
termination
  by (relation "measure (\<lambda>(i, hi, s). nat (hi + 1 - i))") auto

declare addUpTo.simps [simp del]

text \<open>\<open>for (let i = lo; i < bound; i++) linesToShow.add(i)\<close>.\<close>

function addBelow :: "int \<Rightarrow> int \<Rightarrow> int list \<Rightarrow> int list" where
  "addBelow i bound s = (if i < bound then addBelow (i + 1) bound (set_add i s) else s)"
  by pat_completeness auto
termination
  by (relation "measure (\<lambda>(i, bound, s). nat (bound - i))") auto

declare addBelow.simps [simp del]

text \<open>The body of the loop over the locations, on the range of one location.\<close>

definition addLocation :: "int \<Rightarrow> int \<Rightarrow> int list \<Rightarrow> lsp_range \<Rightarrow> int list" where
  "addLocation totalLines contextLines linesToShow loc =
     (let startLine = line (range_start loc);
          endLine = line (range_end loc);
          s1 = addUpTo (max 0 (startLine - contextLines)) startLine linesToShow;
          s2 = addUpTo startLine endLine s1
      in addBelow endLine (min totalLines (endLine + contextLines + 1)) s2)"

definition getLineRangesToDisplay :: "lsp_range list \<Rightarrow> int \<Rightarrow> int \<Rightarrow> int list" where
  "getLineRangesToDisplay locations totalLines contextLines =
     foldl (addLocation totalLines contextLines) [] locations"

record LineRange =
  lr_start :: int
  lr_end :: int

text \<open>
  The loop of \<open>convertLinesToRanges\<close> over the sorted lines, with its three variables
  \<open>rangeStart\<close>, \<open>rangeEnd\<close> and \<open>ranges\<close>.
\<close>

fun rangesLoop :: "int list \<Rightarrow> int \<Rightarrow> int \<Rightarrow> LineRange list \<Rightarrow> int \<times> int \<times> LineRange list" where
  "rangesLoop [] rangeStart rangeEnd ranges = (rangeStart, rangeEnd, ranges)"
| "rangesLoop (l # ls) rangeStart rangeEnd ranges =
     (if rangeStart = - 1 then rangesLoop ls l l ranges
      else if l = rangeEnd + 1 then rangesLoop ls rangeStart l ranges
      else rangesLoop ls l l (ranges @ [\<lparr>lr_start = rangeStart, lr_end = rangeEnd\<rparr>]))"

text \<open>
  \<open>convertLinesToRanges\<close>; \<open>Array.from(lines).sort((a, b) => a - b)\<close> sorts the elements
  of the set in ascending order.
\<close>

definition convertLinesToRanges :: "int list \<Rightarrow> LineRange list" where
  "convertLinesToRanges lines =
     (let sortedLines = sort lines;
          (rangeStart, rangeEnd, ranges) = rangesLoop sortedLines (- 1) (- 1) []
      in if rangeStart \<noteq> - 1 then ranges @ [\<lparr>lr_start = rangeStart, lr_end = rangeEnd\<rparr>]
         else ranges)"

text \<open>\<open>`${lines[lineNum]}`\<close>: an element that does not exist prints as \<open>undefined\<close>.\<close>

definition lineText :: "string list \<Rightarrow> int \<Rightarrow> string" where
  "lineText lines lineNum =
     (if 0 \<le> lineNum \<and> lineNum < int (length lines) then lines ! nat lineNum else ''undefined'')"

text \<open>The inner loop of \<open>formatLinesWithRanges\<close> over the lines of one range.\<close>

function formatRange :: "string list \<Rightarrow> int \<Rightarrow> int \<Rightarrow> string list \<Rightarrow> string list" where
  "formatRange lines lineNum rangeEnd output =
     (if lineNum \<le> rangeEnd \<and> lineNum < int (length lines) then
        formatRange lines (lineNum + 1) rangeEnd
          (output @ [padStart (toString (lineNum + 1)) 6 @ ''| '' @ lineText lines lineNum])
      else output)"
  by pat_completeness auto
termination
  by (relation "measure (\<lambda>(lines, lineNum, rangeEnd, output). nat (rangeEnd + 1 - lineNum))") auto

declare formatRange.simps [simp del]

text \<open>The outer loop, from index \<open>i\<close> on.\<close>

fun formatRanges :: "string list \<Rightarrow> nat \<Rightarrow> LineRange list \<Rightarrow> string list \<Rightarrow> string list" where
  "formatRanges lines i [] output = output"
| "formatRanges lines i (r # rs) output =
     formatRanges lines (i + 1) rs
       (formatRange lines (lr_start r) (lr_end r) (if i > 0 then output @ [''...''] else output))"

definition formatLinesWithRanges :: "string list \<Rightarrow> LineRange list \<Rightarrow> string" where
  "formatLinesWithRanges lines ranges = join_lf (formatRanges lines 0 ranges [])"

text \<open>A location on one line, as the references of the context scenario are.\<close>

definition lineLocation :: "int \<Rightarrow> lsp_range" where
  "lineLocation l = \<lparr>range_start = \<lparr>line = l, character = 0\<rparr>, range_end = \<lparr>line = l, character = 1\<rparr>\<rparr>"

text \<open>The integers covered by a list of ranges.\<close>

definition covered :: "LineRange list \<Rightarrow> int set" where
  "covered rs = (\<Union>r \<in> set rs. {lr_start r .. lr_end r})"

text \<open>
  For the proofs: the maximal runs of consecutive integers of a list, the first run
  being open with bounds \<open>rs\<close> and \<open>re\<close>.
\<close>

fun runs :: "int \<Rightarrow> int \<Rightarrow> int list \<Rightarrow> LineRange list" where
  "runs rs re [] = [\<lparr>lr_start = rs, lr_end = re\<rparr>]"
| "runs rs re (l # ls) =
     (if l = re + 1 then runs rs l ls
      else \<lparr>lr_start = rs, lr_end = re\<rparr> # runs l l ls)"

text \<open>Two ranges in ascending order with at least one integer between them.\<close>

definition apart :: "LineRange \<Rightarrow> LineRange \<Rightarrow> bool" where
  "apart r r' = (lr_end r + 1 < lr_start r')"

section \<open>LSP client: the open-file registry\<close>

record OpenFileInfo =
  version :: int
  info_uri :: string

text \<open>
  The parameters of a \<open>textDocument/didChange\<close> notification: the URI and version of
  the document and the text of its single content change, the full text.
\<close>

datatype params = DidChangeParams string int string

datatype lsp_message = Notification string params

text \<open>
  The client's state: the registry \<open>openFiles\<close> and the messages written to the server's
  standard input so far.  The environment of one call: what \<open>fs.promises.readFile\<close>
  returns for a path (\<open>None\<close> when it fails) and whether the write to the stream succeeds.
\<close>

record client =
  openFiles :: "string \<Rightarrow> OpenFileInfo option"
  written :: "lsp_message list"

record environment =
  readFile :: "string \<Rightarrow> string option"
  writeSucceeds :: bool

text \<open>A call returns the error it raises, if any, and the state it leaves.\<close>

definition notify :: "environment \<Rightarrow> client \<Rightarrow> string \<Rightarrow> params \<Rightarrow> js_error option \<times> client" where
  "notify env c method ps =
     (if writeSucceeds env then (None, c\<lparr>written := written c @ [Notification method ps]\<rparr>)
      else (Some WriteError, c))"

text \<open>\<open>pathToUri\<close> is \<open>URI.file(filePath).toString()\<close> of the \<open>vscode-uri\<close> package.\<close>

definition notifyChange ::
  "(string \<Rightarrow> string) \<Rightarrow> environment \<Rightarrow> client \<Rightarrow> string \<Rightarrow> js_error option \<times> client" where
  "notifyChange pathToUri env c filePath =
     (let u = pathToUri filePath
      in case openFiles c u of
           None \<Rightarrow> (Some (UnopenedFileError filePath), c)
         | Some fileInfo \<Rightarrow>
             (case readFile env filePath of
                None \<Rightarrow> (Some ReadFileError, c)
              | Some content \<Rightarrow>
                  (let fileInfo' = fileInfo\<lparr>version := version fileInfo + 1\<rparr>;
                       c' = c\<lparr>openFiles := (openFiles c)(u \<mapsto> fileInfo')\<rparr>
                   in notify env c' ''textDocument/didChange''
                        (DidChangeParams u (version fileInfo') content))))"

text \<open>
  A sequence of \<open>notifyChange\<close> calls, each in its own environment; an error of one call
  does not stop the next (the watcher catches and logs it).
\<close>

fun notifyChanges :: "(string \<Rightarrow> string) \<Rightarrow> client \<Rightarrow> (environment \<times> string) list \<Rightarrow> client" where
  "notifyChanges pathToUri c [] = c"
| "notifyChanges pathToUri c ((env, filePath) # calls) =
     notifyChanges pathToUri (snd (notifyChange pathToUri env c filePath)) calls"

text \<open>The versions that the change notifications for one URI carry, in the order sent.\<close>

fun changeVersions :: "string \<Rightarrow> lsp_message list \<Rightarrow> int list" where
  "changeVersions u [] = []"
| "changeVersions u (Notification method (DidChangeParams u' v text) # ms) =
     (if method = ''textDocument/didChange'' \<and> u' = u then v # changeVersions u ms
      else changeVersions u ms)"

text \<open>A client with one open file, and an environment in which no file can be read.\<close>

definition fileUri :: "string \<Rightarrow> string" where
  "fileUri filePath = ''file://'' @ filePath"

definition oneOpenFile :: client where
  "oneOpenFile =
     \<lparr>openFiles = Map.empty(''file:///w/a.ts'' \<mapsto> \<lparr>version = 1, info_uri = ''file:///w/a.ts''\<rparr>),
      written = []\<rparr>"

definition unreadable :: environment where
  "unreadable = \<lparr>readFile = (\<lambda>p. None), writeSucceeds = True\<rparr>"

definition readable :: "string \<Rightarrow> environment" where
  "readable content = \<lparr>readFile = (\<lambda>p. Some content), writeSucceeds = True\<rparr>"

section \<open>Applying a workspace edit\<close>

record text_edit =
  edit_range :: lsp_range
  newText :: string

text \<open>The comparison function given to \<open>sort\<close>: descending start line, then character.\<close>

definition compareEdits :: "text_edit \<Rightarrow> text_edit \<Rightarrow> int" where
  "compareEdits a b =
     (if line (range_start (edit_range b)) \<noteq> line (range_start (edit_range a))
      then line (range_start (edit_range b)) - line (range_start (edit_range a))
      else character (range_start (edit_range b)) - character (range_start (edit_range a)))"

text \<open>
  \<open>Array.prototype.sort\<close> with a comparison function is a stable sort: elements that
  compare equal keep their order.  It is modelled as the insertion sort that puts an
  element before the first element it does not compare greater than.
\<close>

fun insertSorted :: "('a \<Rightarrow> 'a \<Rightarrow> int) \<Rightarrow> 'a \<Rightarrow> 'a list \<Rightarrow> 'a list" where
  "insertSorted cmp x [] = [x]"
| "insertSorted cmp x (y # ys) =
     (if cmp x y \<le> 0 then x # y # ys else y # insertSorted cmp x ys)"

definition sortBy :: "('a \<Rightarrow> 'a \<Rightarrow> int) \<Rightarrow> 'a list \<Rightarrow> 'a list" where
  "sortBy cmp xs = foldr (insertSorted cmp) xs []"

text \<open>\<open>xs.splice(start, deleteCount, item)\<close>, the array after the call.\<close>

definition splice :: "'a list \<Rightarrow> int \<Rightarrow> int \<Rightarrow> 'a \<Rightarrow> 'a list" where
  "splice xs start deleteCount item =
     (let n = int (length xs);
          s = (if start < 0 then max (n + start) 0 else min start n);
          d = min (max deleteCount 0) (n - s)
      in take (nat s) xs @ [item] @ drop (nat (s + d)) xs)"

text \<open>
  One step of the loop over the sorted edits; \<open>lines[i].substring\<close> raises a
  \<open>TypeError\<close> when the line does not exist.
\<close>

definition applyEdit :: "string list \<Rightarrow> text_edit \<Rightarrow> js_error + string list" where
  "applyEdit lines edit =
     (let startLine = line (range_start (edit_range edit));
          startChar = character (range_start (edit_range edit));
          endLine = line (range_end (edit_range edit));
          endChar = character (range_end (edit_range edit))
      in if startLine = endLine then
           (if 0 \<le> startLine \<and> startLine < int (length lines) then
              Inr (lines[nat startLine :=
                     substringTo (lines ! nat startLine) startChar @ newText edit @
                     substringFrom (lines ! nat startLine) endChar])
            else Inl TypeError)
         else if \<not> (0 \<le> startLine \<and> startLine < int (length lines)) then Inl TypeError
         else if \<not> (0 \<le> endLine \<and> endLine < int (length lines)) then Inl TypeError
         else Inr (splice lines startLine (endLine - startLine + 1)
                     (substringTo (lines ! nat startLine) startChar @ newText edit @
                      substringFrom (lines ! nat endLine) endChar)))"

fun applyEdits :: "string list \<Rightarrow> text_edit list \<Rightarrow> js_error + string list" where
  "applyEdits lines [] = Inr lines"
| "applyEdits lines (edit # edits) =
     (case applyEdit lines edit of
        Inl err \<Rightarrow> Inl err
      | Inr lines' \<Rightarrow> applyEdits lines' edits)"

text \<open>
  The body of the loop of \<open>applyWorkspaceEdit\<close> for one file: from the content read and
  the edits of the file to the content written, or the error raised before any write.
\<close>

definition applyWorkspaceEdit :: "string \<Rightarrow> text_edit list \<Rightarrow> js_error + string" where
  "applyWorkspaceEdit content edits =
     (case applyEdits (split_lf content) (sortBy compareEdits edits) of
        Inl err \<Rightarrow> Inl err
      | Inr lines \<Rightarrow> Inr (join_lf lines))"

section \<open>Edit tool: ranges from line numbers\<close>

definition getRange :: "string \<Rightarrow> int \<Rightarrow> int \<Rightarrow> js_error + lsp_range" where
  "getRange content startLine endLine =
     (let lines = (if str_includes content [CR, LF] then split_crlf content else split_lf content)
      in if startLine < 1 then Inl (StartLineError startLine)
         else (let startIdx = startLine - 1;
                   endIdx = endLine - 1
               in if startIdx \<ge> int (length lines) then
                    (let lastContentLineIdx = int (length lines) - 1;
                         lastContentLineIdx =
                           (if lastContentLineIdx \<ge> 0 \<and> lines ! nat lastContentLineIdx = []
                            then lastContentLineIdx - 1 else lastContentLineIdx);
                         lastContentLineIdx =
                           (if lastContentLineIdx < 0 then 0 else lastContentLineIdx);
                         pos = \<lparr>line = lastContentLineIdx,
                                character = lengthAt lines lastContentLineIdx\<rparr>
                     in Inr \<lparr>range_start = pos, range_end = pos\<rparr>)
                  else (let endIdx = (if endIdx \<ge> int (length lines) then int (length lines) - 1 else endIdx)
                        in Inr \<lparr>range_start = \<lparr>line = startIdx, character = 0\<rparr>,
                                range_end = \<lparr>line = endIdx, character = lengthAt lines endIdx\<rparr>\<rparr>)))"

text \<open>An edit that replaces the given range, and one that inserts at a position.\<close>

definition replaceAt :: "int \<Rightarrow> int \<Rightarrow> int \<Rightarrow> int \<Rightarrow> string \<Rightarrow> text_edit" where
  "replaceAt sl sc el ec t =
     \<lparr>edit_range = \<lparr>range_start = \<lparr>line = sl, character = sc\<rparr>,
                    range_end = \<lparr>line = el, character = ec\<rparr>\<rparr>,
      newText = t\<rparr>"

definition insertAt :: "int \<Rightarrow> int \<Rightarrow> string \<Rightarrow> text_edit" where
  "insertAt l c t = replaceAt l c l c t"

text \<open>
  The order of positions, and the notion of two edits that do not overlap, as the LSP
  specification has it: one ends at or before the position where the other starts.
\<close>

definition positionLe :: "position \<Rightarrow> position \<Rightarrow> bool" where
  "positionLe p q = (line p < line q \<or> (line p = line q \<and> character p \<le> character q))"

definition nonOverlapping :: "text_edit \<Rightarrow> text_edit \<Rightarrow> bool" where
  "nonOverlapping e e' =
     (positionLe (range_end (edit_range e)) (range_start (edit_range e')) \<or>
      positionLe (range_end (edit_range e')) (range_start (edit_range e)))"

text \<open>The start position of an edit, as a pair.\<close>

definition startOf :: "text_edit \<Rightarrow> int \<times> int" where
  "startOf e = (line (range_start (edit_range e)), character (range_start (edit_range e)))"

text \<open>
  The notions in which the behaviour of an edit past the end of the file is stated; they
  are independent of the way \<open>getRange\<close> splits the content.  The number of lines of a
  file is one more than the number of its line feeds.  The line breaks of a file are
  uniform when they are all LF, or all CR LF: the content has no CR LF, or every line
  feed follows a carriage return.  The final line break is the CR LF or the LF the
  content ends with, if any.  The position of an offset has as line the number of line
  feeds before the offset, and as character the distance from the last of them.
\<close>

definition lineCount :: "string \<Rightarrow> nat" where
  "lineCount content = Suc (length (filter (\<lambda>c. c = LF) content))"

definition uniformLineBreaks :: "string \<Rightarrow> bool" where
  "uniformLineBreaks content =
     (\<not> str_includes content [CR, LF] \<or>
      list_all (\<lambda>l. endsWith l [CR]) (butlast (split_lf content)))"

definition finalBreak :: "string \<Rightarrow> nat" where
  "finalBreak content =
     (if endsWith content [CR, LF] then 2 else if endsWith content [LF] then 1 else 0)"

definition positionAt :: "string \<Rightarrow> nat \<Rightarrow> position" where
  "positionAt content offset =
     \<lparr>line = int (length (filter (\<lambda>c. c = LF) (take offset content))),
      character = int (length (takeWhile (\<lambda>c. c \<noteq> LF) (rev (take offset content))))\<rparr>"

text \<open>The lines joined by CR LF.\<close>

fun join_crlf :: "string list \<Rightarrow> string" where
  "join_crlf [] = []"
| "join_crlf [l] = l"
| "join_crlf (l # m # ls) = l @ CR # LF # join_crlf (m # ls)"


section \<open>Framing transport\<close>

text \<open>
  A number held by \<open>contentLength\<close>: an integer, or \<open>NaN\<close> when \<open>parseInt\<close> finds no
  digits.  A comparison with \<open>NaN\<close> is false.
\<close>

datatype jsnum = Num int | NaN

definition lessThan0 :: "jsnum \<Rightarrow> bool" where
  "lessThan0 n = (case n of Num i \<Rightarrow> i < 0 | NaN \<Rightarrow> False)"

definition isDigit :: "char \<Rightarrow> bool" where
  "isDigit c = (c \<in> set ''0123456789'')"

definition digitValue :: "char \<Rightarrow> nat" where
  "digitValue c = of_char c - 48"

text \<open>
  \<open>parseInt(s, 10)\<close>: leading white space, an optional sign, then the longest run of
  decimal digits; \<open>NaN\<close> when there is no digit.
\<close>

definition parseInt :: "string \<Rightarrow> jsnum" where
  "parseInt s =
     (let t = dropWhile isWhiteSpace s;
          negative = (t \<noteq> [] \<and> hd t = CHR ''-'');
          u = (if t \<noteq> [] \<and> (hd t = CHR ''-'' \<or> hd t = CHR ''+'') then tl t else t);
          ds = takeWhile isDigit u
      in if ds = [] then NaN
         else Num ((if negative then - 1 else 1) *
                   int (foldl (\<lambda>acc c. 10 * acc + digitValue c) 0 ds)))"

text \<open>
  The platform functions that the transport calls.  \<open>jsonStringify\<close> is
  \<open>JSON.stringify\<close>, \<open>None\<close> when it raises or gives no string; \<open>jsonParse\<close> is
  \<open>JSON.parse\<close>, \<open>None\<close> when it raises; \<open>isNullish\<close> holds of \<open>null\<close> and \<open>undefined\<close>, of
  which no property can be read; \<open>utf8Encode\<close> gives the bytes of a string in UTF-8, and
  \<open>utf8Decode\<close> is \<open>buffer.toString('utf8')\<close>.
\<close>

record 'm platform =
  jsonStringify :: "'m \<Rightarrow> string option"
  jsonParse :: "string \<Rightarrow> 'm option"
  isNullish :: "'m \<Rightarrow> bool"
  utf8Encode :: "string \<Rightarrow> string"
  utf8Decode :: "string \<Rightarrow> string"

text \<open>
  \<open>writeMessage\<close>, the bytes handed to \<open>stream.write\<close>, or the error of the \<open>catch\<close>
  block.  \<open>Buffer.byteLength(content, 'utf8')\<close> is the number of bytes of the content,
  and the header and the content are written as one string, in UTF-8.  The properties
  \<open>method\<close> and \<open>id\<close> of the message are read for the log.
\<close>

definition writeMessage :: "'m platform \<Rightarrow> 'm \<Rightarrow> js_error + string" where
  "writeMessage P message =
     (case jsonStringify P message of
        None \<Rightarrow> Inl MarshalError
      | Some content \<Rightarrow>
          if isNullish P message then Inl MarshalError
          else (let contentLength = int (length (utf8Encode P content));
                    header = ''Content-Length: '' @ toString contentLength @ [CR, LF, CR, LF];
                    fullMessage = header @ content
                in Inr (utf8Encode P fullMessage)))"

text \<open>The two fields of a \<open>MessageReader\<close>.\<close>

record reader =
  buffer :: string
  contentLength :: jsnum

definition newReader :: reader where
  "newReader = \<lparr>buffer = [], contentLength = Num (- 1)\<rparr>"

text \<open>What one call of \<open>tryParse\<close> does to the promise of \<open>readMessage\<close>.\<close>

datatype 'm outcome = Resolve 'm | Reject js_error | Pending

text \<open>The loop over the header lines.\<close>

definition parseHeaders :: "string \<Rightarrow> jsnum \<Rightarrow> jsnum" where
  "parseHeaders headers n =
     foldl (\<lambda>n l. if startsWith l ''Content-Length: '' then parseInt (substringFrom l 16) else n)
       n (split_crlf headers)"

text \<open>\<open>buffer.slice(0, n)\<close> and \<open>buffer.slice(n)\<close>, for a number that may be \<open>NaN\<close>.\<close>

definition sliceTo :: "string \<Rightarrow> jsnum \<Rightarrow> string" where
  "sliceTo b n = (case n of Num i \<Rightarrow> slice b 0 i | NaN \<Rightarrow> [])"

definition sliceFrom :: "string \<Rightarrow> jsnum \<Rightarrow> string" where
  "sliceFrom b n = (case n of Num i \<Rightarrow> slice b i (int (length b)) | NaN \<Rightarrow> b)"

text \<open>
  The second part of \<open>tryParse\<close>, from the check for the complete content on.  The
  content is decoded and parsed after the buffer and the content length are reset; when
  \<open>JSON.parse\<close> raises, or the properties of a \<open>null\<close> message are read for the log, the
  \<open>catch\<close> block rejects, and the listeners stay.
\<close>

definition readContent :: "'m platform \<Rightarrow> reader \<Rightarrow> 'm outcome \<times> reader" where
  "readContent P r =
     (if (case contentLength r of Num n \<Rightarrow> int (length (buffer r)) < n | NaN \<Rightarrow> False)
      then (Pending, r)
      else (let content = utf8Decode P (sliceTo (buffer r) (contentLength r));
                r' = r\<lparr>buffer := sliceFrom (buffer r) (contentLength r), contentLength := Num (- 1)\<rparr>
            in case jsonParse P content of
                 None \<Rightarrow> (Reject ParseFailure, r')
               | Some message \<Rightarrow>
                   if isNullish P message then (Reject ParseFailure, r')
                   else (Resolve message, r')))"

text \<open>
  \<open>tryParse\<close>: the separator is searched in the bytes of the buffer, and the header block
  is decoded before it is split into lines.
\<close>

definition tryParse :: "'m platform \<Rightarrow> reader \<Rightarrow> 'm outcome \<times> reader" where
  "tryParse P r =
     (if lessThan0 (contentLength r) then
        (let headerEnd = indexOf (buffer r) [CR, LF, CR, LF]
         in if headerEnd < 0 then (Pending, r)
            else (let headers = utf8Decode P (slice (buffer r) 0 headerEnd);
                      r1 = r\<lparr>contentLength := parseHeaders headers (contentLength r)\<rparr>
                  in if lessThan0 (contentLength r1) then (Reject MissingContentLength, r1)
                     else readContent P
                            (r1\<lparr>buffer := slice (buffer r1) (headerEnd + 4) (int (length (buffer r1)))\<rparr>)))
      else readContent P r)"

text \<open>
  A reader on its stream.  The stream is an event emitter: \<open>readMessage\<close> attaches a
  \<open>data\<close>, an \<open>end\<close> and an \<open>error\<close> listener of its own at each call, and \<open>tryParse\<close>
  removes them when it resolves the promise of the call, not when it rejects it.  The
  calls are numbered from 0; a session holds the reader, the calls whose listeners are
  attached, in the order of attachment, and the state of the promise of each call so
  far, \<open>None\<close> while it is not settled.
\<close>

record 'm session =
  messageReader :: reader
  dataListeners :: "nat list"
  endListeners :: "nat list"
  errorListeners :: "nat list"
  promises :: "(js_error + 'm) option list"

definition newSession :: "'m session" where
  "newSession =
     \<lparr>messageReader = newReader, dataListeners = [], endListeners = [], errorListeners = [],
      promises = []\<rparr>"

text \<open>\<open>resolve\<close> and \<open>reject\<close>: a promise is settled once, later calls have no effect.\<close>

definition settle :: "nat \<Rightarrow> js_error + 'm \<Rightarrow> 'm session \<Rightarrow> 'm session" where
  "settle i v s =
     (if i < length (promises s) \<and> promises s ! i = None
      then s\<lparr>promises := (promises s)[i := Some v]\<rparr> else s)"

text \<open>\<open>tryParse\<close> with the \<open>resolve\<close>, \<open>reject\<close> and listeners of call \<open>i\<close>.\<close>

definition tryParseFor :: "'m platform \<Rightarrow> nat \<Rightarrow> 'm session \<Rightarrow> 'm session" where
  "tryParseFor P i s =
     (case tryParse P (messageReader s) of
        (Pending, r) \<Rightarrow> s\<lparr>messageReader := r\<rparr>
      | (Reject err, r) \<Rightarrow> settle i (Inl err) (s\<lparr>messageReader := r\<rparr>)
      | (Resolve message, r) \<Rightarrow>
          settle i (Inr message)
            (s\<lparr>messageReader := r,
               dataListeners := remove1 i (dataListeners s),
               endListeners := remove1 i (endListeners s),
               errorListeners := remove1 i (errorListeners s)\<rparr>))"

text \<open>A call of \<open>readMessage\<close>: the listeners are attached, then the buffer is tried.\<close>

definition readMessage :: "'m platform \<Rightarrow> 'm session \<Rightarrow> 'm session" where
  "readMessage P s =
     (let i = length (promises s)
      in tryParseFor P i
           (s\<lparr>dataListeners := dataListeners s @ [i],
              endListeners := endListeners s @ [i],
              errorListeners := errorListeners s @ [i],
              promises := promises s @ [None]\<rparr>))"

text \<open>The \<open>data\<close> listener of call \<open>i\<close>.\<close>

definition onData :: "'m platform \<Rightarrow> string \<Rightarrow> nat \<Rightarrow> 'm session \<Rightarrow> 'm session" where
  "onData P chunk i s =
     tryParseFor P i (s\<lparr>messageReader := (messageReader s)\<lparr>buffer := buffer (messageReader s) @ chunk\<rparr>\<rparr>)"

text \<open>
  The stream emits a chunk: the listeners attached at that moment are called in order,
  also those that an earlier one removes meanwhile.  The stream flows from the first call
  on, and removing a listener does not pause it: with no listener the chunk is lost.
  At the end of the stream the \<open>end\<close> listeners, attached with \<open>once\<close>, are removed and
  called, and so are the \<open>error\<close> listeners when the stream fails; an error that finds no
  listener is raised by the emitter, outside the session.
\<close>

definition emitData :: "'m platform \<Rightarrow> string \<Rightarrow> 'm session \<Rightarrow> 'm session" where
  "emitData P chunk s = foldl (\<lambda>s i. onData P chunk i s) s (dataListeners s)"

definition emitEnd :: "'m session \<Rightarrow> 'm session" where
  "emitEnd s =
     foldl (\<lambda>s i. settle i (Inl ConnectionClosed) s) (s\<lparr>endListeners := []\<rparr>) (endListeners s)"

definition emitError :: "'m session \<Rightarrow> 'm session" where
  "emitError s =
     foldl (\<lambda>s i. settle i (Inl StreamError) s) (s\<lparr>errorListeners := []\<rparr>) (errorListeners s)"

text \<open>
  What happens to a session, in the order of time: the program calls \<open>readMessage\<close>, the
  stream emits a chunk, the stream ends, or the stream fails.
\<close>

datatype event = Call | Data string | End | Error

fun step :: "'m platform \<Rightarrow> event \<Rightarrow> 'm session \<Rightarrow> 'm session" where
  "step P Call s = readMessage P s"
| "step P (Data chunk) s = emitData P chunk s"
| "step P End s = emitEnd s"
| "step P Error s = emitError s"

definition run :: "'m platform \<Rightarrow> event list \<Rightarrow> 'm session \<Rightarrow> 'm session" where
  "run P es s = foldl (\<lambda>s e. step P e s) s es"

text \<open>The chunks that the stream emits, and the number of calls.\<close>

fun chunksOf :: "event list \<Rightarrow> string list" where
  "chunksOf [] = []"
| "chunksOf (Data chunk # es) = chunk # chunksOf es"
| "chunksOf (e # es) = chunksOf es"

definition callsOf :: "event list \<Rightarrow> nat" where
  "callsOf es = length (filter (\<lambda>e. e = Call) es)"

text \<open>
  The discipline of the reader loop of the client, which calls \<open>readMessage\<close> again as
  soon as the promise of the last call is settled: a call is made only when no call is
  pending, and the stream emits only while a call is pending.
\<close>

definition pending :: "'m session \<Rightarrow> bool" where
  "pending s = (promises s \<noteq> [] \<and> last (promises s) = None)"

fun orderly :: "'m platform \<Rightarrow> event list \<Rightarrow> 'm session \<Rightarrow> bool" where
  "orderly P [] s = True"
| "orderly P (e # es) s =
     ((if e = Call then \<not> pending s else pending s) \<and> orderly P es (step P e s))"

text \<open>
  The events of the reader loop of the client on a stream that emits the given chunks.
  The loop awaits each call and calls \<open>readMessage\<close> again when a message has arrived,
  here at most \<open>n\<close> times, and ends when a call is rejected; the stream emits its next
  chunk while a call is pending.
\<close>

definition rejected :: "'m session \<Rightarrow> bool" where
  "rejected s =
     (promises s \<noteq> [] \<and> (case last (promises s) of Some (Inl err) \<Rightarrow> True | _ \<Rightarrow> False))"

function clientLoop :: "'m platform \<Rightarrow> nat \<Rightarrow> string list \<Rightarrow> 'm session \<Rightarrow> event list" where
  "clientLoop P n chunks s =
     (if pending s then
        (case chunks of
           [] \<Rightarrow> []
         | chunk # rest \<Rightarrow> Data chunk # clientLoop P n rest (emitData P chunk s))
      else if rejected s then []
      else
        (case n of
           0 \<Rightarrow> []
         | Suc k \<Rightarrow> Call # clientLoop P k chunks (readMessage P s)))"
  by pat_completeness auto
termination
  by (relation "measure (\<lambda>(P, n, chunks, s). n + length chunks)") auto

declare clientLoop.simps [simp del]

text \<open>
  A well-formed frame: the header lines, of which one is the \<open>Content-Length\<close> header
  with the number of bytes of the payload in decimal digits, each followed by CR LF, an
  empty line, and the payload, which is the UTF-8 JSON text of a message.  The other
  header lines are not empty, are ASCII without CR and LF, and are no \<open>Content-Length\<close>
  header.
\<close>

definition isAscii :: "char \<Rightarrow> bool" where
  "isAscii c = ((of_char c :: nat) < 128)"

definition decimalValue :: "string \<Rightarrow> nat" where
  "decimalValue ds = foldl (\<lambda>acc c. 10 * acc + digitValue c) 0 ds"

record frame =
  headersBefore :: "string list"
  lengthDigits :: string
  payload :: string
  headersAfter :: "string list"

definition otherHeader :: "string \<Rightarrow> bool" where
  "otherHeader l =
     (l \<noteq> [] \<and> list_all isAscii l \<and> CR \<notin> set l \<and> LF \<notin> set l \<and>
      \<not> startsWith l ''Content-Length: '')"

definition headerLines :: "frame \<Rightarrow> string list" where
  "headerLines f = headersBefore f @ [''Content-Length: '' @ lengthDigits f] @ headersAfter f"

definition frameBytes :: "frame \<Rightarrow> string" where
  "frameBytes f = join_crlf (headerLines f) @ [CR, LF, CR, LF] @ payload f"

definition wellFormed :: "'m platform \<Rightarrow> frame \<Rightarrow> 'm \<Rightarrow> bool" where
  "wellFormed P f message =
     (list_all otherHeader (headersBefore f) \<and> list_all otherHeader (headersAfter f) \<and>
      lengthDigits f \<noteq> [] \<and> list_all isDigit (lengthDigits f) \<and>
      decimalValue (lengthDigits f) = length (payload f) \<and>
      jsonParse P (utf8Decode P (payload f)) = Some message \<and> \<not> isNullish P message)"

text \<open>
  The state of the reader while the frame \<open>f\<close> is read, after the first bytes \<open>g\<close> of the
  frame have arrived, and the sessions through which an orderly run goes: no call is
  pending and \<open>c\<close> calls have returned the first \<open>c\<close> messages, or call \<open>j\<close> is pending.
\<close>

definition headerLength :: "frame \<Rightarrow> nat" where
  "headerLength f = length (join_crlf (headerLines f)) + 4"

definition reading :: "frame \<Rightarrow> string \<Rightarrow> reader" where
  "reading f g =
     (if length g < headerLength f then \<lparr>buffer = g, contentLength = Num (- 1)\<rparr>
      else \<lparr>buffer = drop (headerLength f) g, contentLength = Num (int (length (payload f)))\<rparr>)"

definition idleSession :: "'m list \<Rightarrow> nat \<Rightarrow> string \<Rightarrow> 'm session" where
  "idleSession ms c b =
     \<lparr>messageReader = \<lparr>buffer = b, contentLength = Num (- 1)\<rparr>,
      dataListeners = [], endListeners = [], errorListeners = [],
      promises = map (\<lambda>m. Some (Inr m)) (take c ms)\<rparr>"

definition pendingSession :: "frame list \<Rightarrow> 'm list \<Rightarrow> nat \<Rightarrow> string \<Rightarrow> 'm session" where
  "pendingSession fs ms j g =
     \<lparr>messageReader = reading (fs ! j) g,
      dataListeners = [j], endListeners = [j], errorListeners = [j],
      promises = map (\<lambda>m. Some (Inr m)) (take j ms) @ [None]\<rparr>"

text \<open>
  A platform for the examples: a message is its own JSON text, which is ASCII, so that
  the text, its UTF-8 bytes and the message are the same string.
\<close>

definition asciiPlatform :: "string platform" where
  "asciiPlatform =
     \<lparr>jsonStringify = Some, jsonParse = Some, isNullish = (\<lambda>m. False),
      utf8Encode = id, utf8Decode = id\<rparr>"

section \<open>Verification\<close>

subsection \<open>Definition tool: match policy\<close>

lemma str_includes_iff_mem:
  "str_includes s [c] \<longleftrightarrow> c \<in> set s"
  by (induction s) (auto simp: str_includes_def startsWith_def Let_def)

lemma getName_wrapSymbol [simp]:
  "getName (wrapSymbol s) = sym_name s"
  by (simp add: wrapSymbol_def)

lemma getKind_wrapSymbol [simp]:
  "getKind (wrapSymbol s) = sym_kind s"
  by (simp add: wrapSymbol_def)

lemma foundSymbols_eq_filter:
  "foundSymbols q rs = map wrapSymbol (filter (\<lambda>r. \<not> skipped q (wrapSymbol r)) rs)"
  by (induction rs) (simp_all add: Let_def)

lemma skipped_wrapSymbol:
  "\<not> skipped q (wrapSymbol r) \<longleftrightarrow>
     (if CHR ''.'' \<in> set q then sym_name r = q
      else if sym_kind r = Some Method then
        sym_name r = q \<or> endsWith (sym_name r) (''::'' @ q) \<or> endsWith (sym_name r) (''.'' @ q)
      else sym_name r = q)"
  by (auto simp: skipped_def str_includes_iff_mem)

text \<open>
  C5.  The definition tool keeps, in order, exactly the symbols that pass the match
  policy: when the queried name contains a dot, those whose name equals the query; else a
  symbol of kind Method when its name equals the query or ends with \<open>::\<close> or \<open>.\<close> followed by
  the query, and a symbol of any other kind when its name equals the query.  Querying
  \<open>Foo\<close> against Method symbols named \<open>Foo\<close>, \<open>Bar::Foo\<close> and \<open>other.Foo\<close> keeps all three;
  querying \<open>Bar.Foo\<close> keeps only a symbol named \<open>Bar.Foo\<close>, and none when there is no such
  symbol.
\<close>

theorem definition_match_policy:
  "foundSymbols q rs =
     map wrapSymbol (filter (\<lambda>r.
       if CHR ''.'' \<in> set q then sym_name r = q
       else if sym_kind r = Some Method then
         sym_name r = q \<or> endsWith (sym_name r) (''::'' @ q) \<or> endsWith (sym_name r) (''.'' @ q)
       else sym_name r = q) rs)
   \<and> foundSymbols ''Foo'' [methodSymbol ''Foo'', methodSymbol ''Bar::Foo'', methodSymbol ''other.Foo'']
     = map wrapSymbol [methodSymbol ''Foo'', methodSymbol ''Bar::Foo'', methodSymbol ''other.Foo'']
   \<and> foundSymbols ''Bar.Foo''
      [methodSymbol ''Foo'', methodSymbol ''Bar::Foo'', methodSymbol ''other.Foo'', methodSymbol ''Bar.Foo'']
     = [wrapSymbol (methodSymbol ''Bar.Foo'')]
   \<and> foundSymbols ''Bar.Foo'' [methodSymbol ''Foo'', methodSymbol ''Bar::Foo'', methodSymbol ''other.Foo''] = []"
proof (intro conjI)
  show "foundSymbols q rs =
     map wrapSymbol (filter (\<lambda>r.
       if CHR ''.'' \<in> set q then sym_name r = q
       else if sym_kind r = Some Method then
         sym_name r = q \<or> endsWith (sym_name r) (''::'' @ q) \<or> endsWith (sym_name r) (''.'' @ q)
       else sym_name r = q) rs)"
    unfolding foundSymbols_eq_filter skipped_wrapSymbol ..
  show "foundSymbols ''Foo'' [methodSymbol ''Foo'', methodSymbol ''Bar::Foo'', methodSymbol ''other.Foo'']
     = map wrapSymbol [methodSymbol ''Foo'', methodSymbol ''Bar::Foo'', methodSymbol ''other.Foo'']"
    by (simp add: skipped_def str_includes_iff_mem methodSymbol_def endsWith_def Let_def)
  show "foundSymbols ''Bar.Foo''
      [methodSymbol ''Foo'', methodSymbol ''Bar::Foo'', methodSymbol ''other.Foo'', methodSymbol ''Bar.Foo'']
     = [wrapSymbol (methodSymbol ''Bar.Foo'')]"
    by (simp add: skipped_def str_includes_iff_mem methodSymbol_def Let_def)
  show "foundSymbols ''Bar.Foo'' [methodSymbol ''Foo'', methodSymbol ''Bar::Foo'', methodSymbol ''other.Foo''] = []"
    by (simp add: skipped_def str_includes_iff_mem methodSymbol_def Let_def)
qed

theorem definition_match_policy_witness:
  "foundSymbols ''run'' [methodSymbol ''Job.run'', methodSymbol ''rerun'', methodSymbol ''run'']
     = map wrapSymbol [methodSymbol ''Job.run'', methodSymbol ''run'']"
  using definition_match_policy [of "''run''" "[methodSymbol ''Job.run'', methodSymbol ''rerun'', methodSymbol ''run'']"]
  by (simp add: methodSymbol_def endsWith_def)

subsection \<open>Symbol abstraction\<close>

text \<open>
  C4.  A \<open>WorkspaceSymbol\<close> whose location has a URI and no range: \<open>wrapSymbol\<close> tests
  \<open>'uri' in symbol.location\<close>, which holds for it, and wraps it as a
  \<open>SymbolInformationWrapper\<close>; \<open>getLocation\<close> then returns the location as received,
  without a range.  The wrapper that synthesises the zero-length range is not reached.
\<close>

theorem wrapSymbol_uri_only_location:
  "wrapSymbol \<lparr>sym_name = ''f'', sym_kind = Some 12,
               sym_location = Some \<lparr>uri = Some ''file:///a.ts'', range = None\<rparr>,
               sym_containerName = None\<rparr>
     = SymbolInformationWrapper \<lparr>sym_name = ''f'', sym_kind = Some 12,
               sym_location = Some \<lparr>uri = Some ''file:///a.ts'', range = None\<rparr>,
               sym_containerName = None\<rparr>
   \<and> getLocation (wrapSymbol \<lparr>sym_name = ''f'', sym_kind = Some 12,
               sym_location = Some \<lparr>uri = Some ''file:///a.ts'', range = None\<rparr>,
               sym_containerName = None\<rparr>)
     = Inr (Some \<lparr>uri = Some ''file:///a.ts'', range = None\<rparr>)
   \<and> getLocation (WorkspaceSymbolWrapper \<lparr>sym_name = ''f'', sym_kind = Some 12,
               sym_location = Some \<lparr>uri = Some ''file:///a.ts'', range = None\<rparr>,
               sym_containerName = None\<rparr>)
     = Inr (Some \<lparr>uri = Some ''file:///a.ts'', range = Some zeroRange\<rparr>)"
  by (simp add: wrapSymbol_def)

subsection \<open>Definition tool: range expansion\<close>

lemma exampleFile_lines:
  "split_lf exampleFile = [''// doc'', ''function f() {'', ''  return 1;'', ''}'']"
  by (simp add: exampleFile_def LF_def)

text \<open>The downward loop never returns a line after the reported end line.\<close>

lemma expandDown_le_end:
  "expandDown lines origStart endLine i st = Inr r \<Longrightarrow> r \<le> endLine"
proof (induction lines origStart endLine i st rule: expandDown.induct)
  case (1 lines origStart endLine i st)
  then show ?case
    by (subst (asm) (2) expandDown.simps) (auto simp: Let_def split: if_splits)
qed

text \<open>
  C2.  On the four-line file \<open>// doc\<close>, \<open>function f() {\<close>, \<open>  return 1;\<close>, \<open>}\<close> with
  the reported range \<open>(1,0)-(1,12)\<close>, \<open>getFullDefinition\<close> returns lines 0 to 1 only: the
  downward loop runs while \<open>i <= endLine\<close>, the reported end line, so the lines after it
  are never scanned and the end line is never moved past the reported one.
\<close>

theorem getFullDefinition_example:
  "getFullDefinition exampleFile
       \<lparr>range_start = \<lparr>line = 1, character = 0\<rparr>, range_end = \<lparr>line = 1, character = 12\<rparr>\<rparr>
     = Inr (join_lf [''// doc'', ''function f() {''],
            \<lparr>range_start = \<lparr>line = 0, character = 0\<rparr>, range_end = \<lparr>line = 1, character = 14\<rparr>\<rparr>)"
  by code_simp


subsection \<open>Workspace watcher\<close>

lemma allKinds_eq: "allKinds = 7"
  by (simp add: allKinds_def WatchKind_Create_def WatchKind_Change_def WatchKind_Delete_def)

lemma checkRegistrations_watched:
  "fst (checkRegistrations rel regs) \<longleftrightarrow> (\<exists>reg \<in> set regs. matchesPattern rel (globPattern reg))"
  by (induction regs) auto

lemma checkRegistrations_find:
  "checkRegistrations rel regs =
     (case find (\<lambda>reg. matchesPattern rel (globPattern reg)) regs of
        None \<Rightarrow> (False, 0)
      | Some reg \<Rightarrow> (True, case kind reg of None \<Rightarrow> allKinds | Some k \<Rightarrow> k))"
  by (induction regs) auto

text \<open>
  C10.  With no registration, \<open>isPathWatched\<close> answers watched with the mask
  Create|Change|Delete = 7 for every path, and \<open>handleFileEvent\<close> then acts on every
  event of a file that is not excluded (it opens a created file and schedules the
  notification).  With at least one registration, a path is watched iff it matches the
  pattern of some registration, and the mask is the kind of the first registration that
  matches, 7 when that registration has no kind.
\<close>

theorem isPathWatched_policy:
  "isPathWatched [] rel = (True, 7)
   \<and> (\<not> excluded \<longrightarrow>
        handleFileEvent [] excluded isOpen filePath rel changeType =
          (case changeType of
             Created \<Rightarrow> [OpenFile filePath, DebounceFileEvent filePath Created]
           | Changed \<Rightarrow> (if isOpen then [DebounceNotifyChange filePath]
                         else [DebounceFileEvent filePath Changed])
           | Deleted \<Rightarrow> [DebounceFileEvent filePath Deleted]))
   \<and> (regs \<noteq> [] \<longrightarrow>
        (fst (isPathWatched regs rel) \<longleftrightarrow> (\<exists>reg \<in> set regs. matchesPattern rel (globPattern reg)))
        \<and> isPathWatched regs rel =
            (case find (\<lambda>reg. matchesPattern rel (globPattern reg)) regs of
               None \<Rightarrow> (False, 0)
             | Some reg \<Rightarrow> (True, case kind reg of None \<Rightarrow> 7 | Some k \<Rightarrow> k)))"
proof (intro conjI impI)
  show "isPathWatched [] rel = (True, 7)"
    by (simp add: isPathWatched_def allKinds_eq)
next
  assume "\<not> excluded"
  then show "handleFileEvent [] excluded isOpen filePath rel changeType =
          (case changeType of
             Created \<Rightarrow> [OpenFile filePath, DebounceFileEvent filePath Created]
           | Changed \<Rightarrow> (if isOpen then [DebounceNotifyChange filePath]
                         else [DebounceFileEvent filePath Changed])
           | Deleted \<Rightarrow> [DebounceFileEvent filePath Deleted])"
    by (cases changeType)
       (simp_all add: handleFileEvent_def isPathWatched_def allKinds_eq
          WatchKind_Create_def WatchKind_Change_def WatchKind_Delete_def)
next
  assume "regs \<noteq> []"
  then show "fst (isPathWatched regs rel) \<longleftrightarrow> (\<exists>reg \<in> set regs. matchesPattern rel (globPattern reg))"
    by (simp add: isPathWatched_def checkRegistrations_watched)
next
  assume "regs \<noteq> []"
  then show "isPathWatched regs rel =
            (case find (\<lambda>reg. matchesPattern rel (globPattern reg)) regs of
               None \<Rightarrow> (False, 0)
             | Some reg \<Rightarrow> (True, case kind reg of None \<Rightarrow> 7 | Some k \<Rightarrow> k))"
    by (simp add: isPathWatched_def checkRegistrations_find allKinds_eq split: option.splits)
qed

theorem isPathWatched_policy_witness:
  "isPathWatched [] ''src/a.ts'' = (True, 7)
   \<and> handleFileEvent [] False True ''/w/src/a.ts'' ''src/a.ts'' Changed = [DebounceNotifyChange ''/w/src/a.ts'']
   \<and> [tsRegistration, goRegistration] \<noteq> []
   \<and> isPathWatched [tsRegistration, goRegistration] ''cmd/main.go'' = (True, 2)
   \<and> isPathWatched [tsRegistration, goRegistration] ''src/a.ts'' = (True, 7)
   \<and> isPathWatched [tsRegistration, goRegistration] ''README.md'' = (False, 0)"
  using isPathWatched_policy [of "''src/a.ts''" False True "''/w/src/a.ts''" Changed "[tsRegistration, goRegistration]"]
    isPathWatched_policy [of "''cmd/main.go''" False True "''/w/src/a.ts''" Changed "[tsRegistration, goRegistration]"]
    isPathWatched_policy [of "''README.md''" False True "''/w/src/a.ts''" Changed "[tsRegistration, goRegistration]"]
  by (simp add: tsRegistration_def goRegistration_def matchGlob_def startsWith_def endsWith_def substringFrom_def)

subsection \<open>Line-range collapse\<close>

lemma rangesLoop_runs:
  "rs \<noteq> - 1 \<Longrightarrow> - 1 \<notin> set ls \<Longrightarrow> rangesLoop ls rs re ranges = (a, b, c) \<Longrightarrow>
   a \<noteq> - 1 \<and> c @ [\<lparr>lr_start = a, lr_end = b\<rparr>] = ranges @ runs rs re ls"
proof (induction ls arbitrary: rs re ranges)
  case Nil
  then show ?case by simp
next
  case (Cons l ls)
  have l: "l \<noteq> - 1" "- 1 \<notin> set ls" using Cons.prems(2) by auto
  show ?case
  proof (cases "l = re + 1")
    case True
    then have "rangesLoop ls rs l ranges = (a, b, c)"
      using Cons.prems(1,3) by simp
    then show ?thesis using Cons.IH [OF Cons.prems(1) l(2)] True by simp
  next
    case False
    then have "rangesLoop ls l l (ranges @ [\<lparr>lr_start = rs, lr_end = re\<rparr>]) = (a, b, c)"
      using Cons.prems(1,3) by simp
    then show ?thesis using Cons.IH [OF l(1) l(2)] False by simp
  qed
qed

lemma covered_Cons [simp]:
  "covered (r # rs) = {lr_start r .. lr_end r} \<union> covered rs"
  by (simp add: covered_def)

lemma covered_Nil [simp]: "covered [] = {}"
  by (simp add: covered_def)

lemma runs_covered:
  "rs \<le> re \<Longrightarrow> \<forall>l \<in> set ls. re < l \<Longrightarrow> sorted_wrt (<) ls \<Longrightarrow>
   covered (runs rs re ls) = {rs .. re} \<union> set ls"
proof (induction ls arbitrary: rs re)
  case Nil
  then show ?case by simp
next
  case (Cons l ls)
  have *: "\<forall>x \<in> set ls. l < x" using Cons.prems by simp
  have **: "sorted_wrt (<) ls" using Cons.prems by simp
  show ?case
  proof (cases "l = re + 1")
    case True
    have "covered (runs rs l ls) = {rs .. l} \<union> set ls"
      using Cons.IH [of rs l] Cons.prems * ** True by simp
    moreover have "{rs .. l} = insert l {rs .. re}"
      using True Cons.prems(1) by auto
    ultimately show ?thesis using True by simp
  next
    case False
    have "covered (runs l l ls) = {l .. l} \<union> set ls"
      using Cons.IH [of l l] * ** by simp
    then show ?thesis using False by auto
  qed
qed

lemma runs_bounds:
  "rs \<le> re \<Longrightarrow> \<forall>l \<in> set ls. re < l \<Longrightarrow> sorted_wrt (<) ls \<Longrightarrow> r \<in> set (runs rs re ls) \<Longrightarrow>
   rs \<le> lr_start r \<and> lr_start r \<le> lr_end r"
proof (induction ls arbitrary: rs re)
  case Nil
  then show ?case by simp
next
  case (Cons l ls)
  have *: "\<forall>x \<in> set ls. l < x" "sorted_wrt (<) ls" "re < l" using Cons.prems by simp_all
  show ?case
  proof (cases "l = re + 1")
    case True
    then have "r \<in> set (runs rs l ls)" using Cons.prems(4) by simp
    then show ?thesis using Cons.IH [of rs l] * Cons.prems(1) by simp
  next
    case False
    then have "r = \<lparr>lr_start = rs, lr_end = re\<rparr> \<or> r \<in> set (runs l l ls)"
      using Cons.prems(4) by simp
    then show ?thesis
    proof
      assume "r = \<lparr>lr_start = rs, lr_end = re\<rparr>"
      then show ?thesis using Cons.prems(1) by simp
    next
      assume "r \<in> set (runs l l ls)"
      then have "l \<le> lr_start r \<and> lr_start r \<le> lr_end r" using Cons.IH [of l l] * by simp
      then show ?thesis using * Cons.prems(1) by simp
    qed
  qed
qed

lemma runs_apart:
  "rs \<le> re \<Longrightarrow> \<forall>l \<in> set ls. re < l \<Longrightarrow> sorted_wrt (<) ls \<Longrightarrow>
   sorted_wrt apart (runs rs re ls)"
proof (induction ls arbitrary: rs re)
  case Nil
  then show ?case by simp
next
  case (Cons l ls)
  have *: "\<forall>x \<in> set ls. l < x" "sorted_wrt (<) ls" "re < l" using Cons.prems by simp_all
  show ?case
  proof (cases "l = re + 1")
    case True
    then show ?thesis using Cons.IH [of rs l] * Cons.prems(1) by simp
  next
    case False
    have "sorted_wrt apart (runs l l ls)" using Cons.IH [of l l] * by simp
    moreover have "\<forall>r \<in> set (runs l l ls). apart \<lparr>lr_start = rs, lr_end = re\<rparr> r"
    proof
      fix r assume "r \<in> set (runs l l ls)"
      then have "l \<le> lr_start r" using runs_bounds [of l l ls r] * by simp
      then show "apart \<lparr>lr_start = rs, lr_end = re\<rparr> r"
        using False * by (simp add: apart_def)
    qed
    ultimately show ?thesis using False by simp
  qed
qed

lemma sorted_wrt_pair:
  "sorted_wrt P xs \<Longrightarrow> x \<in> set xs \<Longrightarrow> y \<in> set xs \<Longrightarrow> x \<noteq> y \<Longrightarrow> P x y \<or> P y x"
  by (induction xs) auto

lemma convertLinesToRanges_runs:
  assumes "\<forall>l \<in> set lines. 0 \<le> l"
  shows "convertLinesToRanges lines =
           (case sort lines of [] \<Rightarrow> [] | x # xs \<Rightarrow> runs x x xs)"
proof (cases "sort lines")
  case Nil
  then show ?thesis by (simp add: convertLinesToRanges_def)
next
  case (Cons x xs)
  have "set (x # xs) = set lines" using Cons by (metis set_sort)
  then have "x \<in> set lines" "set xs \<subseteq> set lines" by auto
  then have nn: "x \<noteq> - 1" "- 1 \<notin> set xs" using assms by force+
  obtain a b c where abc: "rangesLoop xs x x [] = (a, b, c)"
    by (cases "rangesLoop xs x x []") auto
  have "a \<noteq> - 1 \<and> c @ [\<lparr>lr_start = a, lr_end = b\<rparr>] = [] @ runs x x xs"
    using rangesLoop_runs [OF nn abc] .
  then show ?thesis using Cons abc by (simp add: convertLinesToRanges_def)
qed


lemma convertLinesToRanges_properties:
  assumes "distinct lines" and "\<forall>l \<in> set lines. 0 \<le> l"
  shows "covered (convertLinesToRanges lines) = set lines"
    and "sorted_wrt apart (convertLinesToRanges lines)"
    and "\<forall>r \<in> set (convertLinesToRanges lines). lr_start r \<le> lr_end r"
proof -
  have eq: "convertLinesToRanges lines = (case sort lines of [] \<Rightarrow> [] | x # xs \<Rightarrow> runs x x xs)"
    using convertLinesToRanges_runs [OF assms(2)] .
  have st: "sorted_wrt (<) (sort lines)"
    using assms(1) by (simp add: strict_sorted_iff)
  show "covered (convertLinesToRanges lines) = set lines"
  proof (cases "sort lines")
    case Nil
    then have "set (sort lines) = {}" by simp
    then have "set lines = {}" by simp
    then show ?thesis using eq Nil by simp
  next
    case (Cons x xs)
    have "set lines = set (x # xs)" using Cons by (metis set_sort)
    moreover have "covered (runs x x xs) = {x .. x} \<union> set xs"
      using runs_covered [of x x xs] st Cons by simp
    ultimately show ?thesis using eq Cons by simp
  qed
  show "sorted_wrt apart (convertLinesToRanges lines)"
  proof (cases "sort lines")
    case Nil
    then show ?thesis using eq by simp
  next
    case (Cons x xs)
    then show ?thesis using runs_apart [of x x xs] st eq by simp
  qed
  show "\<forall>r \<in> set (convertLinesToRanges lines). lr_start r \<le> lr_end r"
  proof (cases "sort lines")
    case Nil
    then show ?thesis using eq by simp
  next
    case (Cons x xs)
    then show ?thesis using runs_bounds [of x x xs] st eq by simp
  qed
qed

text \<open>
  C8.  For the elements of a set of line indices (no repetition, none negative),
  \<open>convertLinesToRanges\<close> returns ranges whose union is the set, in ascending order with a
  gap of at least one index between any two of them, each non-empty and maximal (the index
  before its start and the index after its end are not in the set); so every index of the
  set lies in exactly one range.
\<close>

theorem convertLinesToRanges_correct:
  assumes "distinct lines" and "\<forall>l \<in> set lines. 0 \<le> l"
  shows "(\<Union>r \<in> set (convertLinesToRanges lines). {lr_start r .. lr_end r}) = set lines
    \<and> sorted_wrt (\<lambda>r r'. lr_end r + 1 < lr_start r') (convertLinesToRanges lines)
    \<and> (\<forall>r \<in> set (convertLinesToRanges lines).
          lr_start r \<le> lr_end r \<and> lr_start r - 1 \<notin> set lines \<and> lr_end r + 1 \<notin> set lines)
    \<and> (\<forall>x \<in> set lines. \<exists>!r. r \<in> set (convertLinesToRanges lines) \<and> lr_start r \<le> x \<and> x \<le> lr_end r)"
proof -
  let ?R = "convertLinesToRanges lines"
  have cov: "covered ?R = set lines"
    and ap: "sorted_wrt apart ?R"
    and le: "\<forall>r \<in> set ?R. lr_start r \<le> lr_end r"
    using convertLinesToRanges_properties [OF assms] by blast+
  have in_cov: "x \<in> set lines \<longleftrightarrow> (\<exists>r \<in> set ?R. lr_start r \<le> x \<and> x \<le> lr_end r)" for x
  proof -
    have "x \<in> set lines \<longleftrightarrow> x \<in> covered ?R" using cov by simp
    then show ?thesis unfolding covered_def by simp
  qed
  have disj: "r = r'"
    if "r \<in> set ?R" "r' \<in> set ?R" "lr_start r \<le> x" "x \<le> lr_end r" "lr_start r' \<le> x + 1" "x - 1 \<le> lr_end r'"
    for r r' x
  proof (rule ccontr)
    assume "r \<noteq> r'"
    then have "apart r r' \<or> apart r' r"
      using sorted_wrt_pair [OF ap that(1,2)] by simp
    then show False using that by (auto simp: apart_def)
  qed
  have c1: "(\<Union>r \<in> set ?R. {lr_start r .. lr_end r}) = set lines"
    using cov by (simp add: covered_def)
  have c2: "sorted_wrt (\<lambda>r r'. lr_end r + 1 < lr_start r') ?R"
    using ap by (simp add: apart_def [abs_def])
  have c3: "\<forall>r \<in> set ?R. lr_start r \<le> lr_end r \<and> lr_start r - 1 \<notin> set lines \<and> lr_end r + 1 \<notin> set lines"
  proof (intro ballI conjI)
    fix r assume r: "r \<in> set ?R"
    show "lr_start r \<le> lr_end r" using le r by simp
    show "lr_start r - 1 \<notin> set lines"
    proof
      assume "lr_start r - 1 \<in> set lines"
      then obtain r' where r': "r' \<in> set ?R" "lr_start r' \<le> lr_start r - 1" "lr_start r - 1 \<le> lr_end r'"
        using in_cov by auto
      have "r' = r" using disj [OF r' (1) r, of "lr_start r - 1"] r' le [rule_format, OF r] by simp
      then show False using r' by simp
    qed
    show "lr_end r + 1 \<notin> set lines"
    proof
      assume "lr_end r + 1 \<in> set lines"
      then obtain r' where r': "r' \<in> set ?R" "lr_start r' \<le> lr_end r + 1" "lr_end r + 1 \<le> lr_end r'"
        using in_cov by auto
      have "r = r'" using disj [OF r r'(1), of "lr_end r"] r' le [rule_format, OF r] le [rule_format, OF r'(1)] by simp
      then show False using r' by simp
    qed
  qed
  have c4: "\<forall>x \<in> set lines. \<exists>!r. r \<in> set ?R \<and> lr_start r \<le> x \<and> x \<le> lr_end r"
  proof
    fix x assume "x \<in> set lines"
    then obtain r where r: "r \<in> set ?R" "lr_start r \<le> x" "x \<le> lr_end r"
      using in_cov by auto
    show "\<exists>!r. r \<in> set ?R \<and> lr_start r \<le> x \<and> x \<le> lr_end r"
    proof (rule ex1I [of _ r])
      show "r \<in> set ?R \<and> lr_start r \<le> x \<and> x \<le> lr_end r" using r by simp
    next
      fix r' assume "r' \<in> set ?R \<and> lr_start r' \<le> x \<and> x \<le> lr_end r'"
      then show "r' = r" using disj [of r' r x] r by simp
    qed
  qed
  show ?thesis using c1 c2 c3 c4 by blast
qed

theorem convertLinesToRanges_correct_witness:
  "distinct [5, 1, 2, 3, 10, 6 :: int] \<and> list_all (\<lambda>l. 0 \<le> l) [5, 1, 2, 3, 10, 6 :: int]
   \<and> convertLinesToRanges [5, 1, 2, 3, 10, 6]
       = [\<lparr>lr_start = 1, lr_end = 3\<rparr>, \<lparr>lr_start = 5, lr_end = 6\<rparr>, \<lparr>lr_start = 10, lr_end = 10\<rparr>]
   \<and> (\<Union>r \<in> set (convertLinesToRanges [5, 1, 2, 3, 10, 6]). {lr_start r .. lr_end r}) = {1, 2, 3, 5, 6, 10}"
proof -
  have d: "distinct [5, 1, 2, 3, 10, 6 :: int]" by simp
  have p: "\<forall>l \<in> set [5, 1, 2, 3, 10, 6 :: int]. 0 \<le> l" by simp
  have e: "convertLinesToRanges [5, 1, 2, 3, 10, 6]
       = [\<lparr>lr_start = 1, lr_end = 3\<rparr>, \<lparr>lr_start = 5, lr_end = 6\<rparr>, \<lparr>lr_start = 10, lr_end = 10\<rparr>]"
    by (simp add: convertLinesToRanges_def)
  have "(\<Union>r \<in> set (convertLinesToRanges [5, 1, 2, 3, 10, 6]). {lr_start r .. lr_end r}) = set [5, 1, 2, 3, 10, 6]"
    using convertLinesToRanges_correct [OF d p] by blast
  then show ?thesis using d e by auto
qed

subsection \<open>References context\<close>

lemma set_set_add [simp]: "set (set_add x s) = insert x (set s)"
  by (auto simp: set_add_def)

lemma set_addUpTo: "set (addUpTo i hi s) = set s \<union> {i .. hi}"
proof (induction i hi s rule: addUpTo.induct)
  case (1 i hi s)
  show ?case
  proof (cases "i \<le> hi")
    case True
    then have "set (addUpTo i hi s) = set (set_add i s) \<union> {i + 1 .. hi}"
      using 1 by (subst addUpTo.simps) simp
    also have "\<dots> = set s \<union> {i .. hi}" using True by auto
    finally show ?thesis .
  next
    case False
    then show ?thesis by (subst addUpTo.simps) simp
  qed
qed

lemma set_addBelow: "set (addBelow i b s) = set s \<union> {i ..< b}"
proof (induction i b s rule: addBelow.induct)
  case (1 i b s)
  show ?case
  proof (cases "i < b")
    case True
    then have "set (addBelow i b s) = set (set_add i s) \<union> {i + 1 ..< b}"
      using 1 by (subst addBelow.simps) simp
    also have "\<dots> = set s \<union> {i ..< b}" using True by auto
    finally show ?thesis .
  next
    case False
    then show ?thesis by (subst addBelow.simps) simp
  qed
qed

lemma set_addLocation:
  "set (addLocation totalLines C s loc) =
     set s \<union> {max 0 (line (range_start loc) - C) .. line (range_start loc)}
           \<union> {line (range_start loc) .. line (range_end loc)}
           \<union> {line (range_end loc) ..< min totalLines (line (range_end loc) + C + 1)}"
  by (simp add: addLocation_def Let_def set_addUpTo set_addBelow)

lemma set_addLocation_inside:
  assumes "0 \<le> C" "0 \<le> line (range_start loc)" "line (range_start loc) \<le> line (range_end loc)"
    "line (range_end loc) < totalLines"
  shows "set (addLocation totalLines C s loc) =
     set s \<union> {max 0 (line (range_start loc) - C) .. min (totalLines - 1) (line (range_end loc) + C)}"
  unfolding set_addLocation using assms by auto

lemma set_foldl_addLocation:
  assumes "0 \<le> C"
    and "\<forall>loc \<in> set locs. 0 \<le> line (range_start loc) \<and> line (range_start loc) \<le> line (range_end loc)
           \<and> line (range_end loc) < totalLines"
  shows "set (foldl (addLocation totalLines C) s locs) =
     set s \<union> (\<Union>loc \<in> set locs. {max 0 (line (range_start loc) - C) .. min (totalLines - 1) (line (range_end loc) + C)})"
  using assms(2)
proof (induction locs arbitrary: s)
  case Nil
  then show ?case by simp
next
  case (Cons loc locs)
  have "set (addLocation totalLines C s loc) =
     set s \<union> {max 0 (line (range_start loc) - C) .. min (totalLines - 1) (line (range_end loc) + C)}"
    using set_addLocation_inside [of C loc totalLines s] assms(1) Cons.prems by simp
  moreover have "set (foldl (addLocation totalLines C) (addLocation totalLines C s loc) locs) =
     set (addLocation totalLines C s loc) \<union> (\<Union>loc \<in> set locs. {max 0 (line (range_start loc) - C) .. min (totalLines - 1) (line (range_end loc) + C)})"
    using Cons.IH [of "addLocation totalLines C s loc"] Cons.prems by simp
  ultimately show ?case by auto
qed

lemma example_lines:
  "getLineRangesToDisplay [lineLocation 3, lineLocation 4, lineLocation 12] 20 2
     = [1, 2, 3, 4, 5, 6, 10, 11, 12, 13, 14]"
  by code_simp

lemma example_ranges:
  "convertLinesToRanges [1, 2, 3, 4, 5, 6, 10, 11, 12, 13, 14]
     = [\<lparr>lr_start = 1, lr_end = 6\<rparr>, \<lparr>lr_start = 10, lr_end = 14\<rparr>]"
  by code_simp

lemma gutter_values:
  "padStart (toString 2) 6 = ''     2''" "padStart (toString 3) 6 = ''     3''"
  "padStart (toString 4) 6 = ''     4''" "padStart (toString 5) 6 = ''     5''"
  "padStart (toString 6) 6 = ''     6''" "padStart (toString 7) 6 = ''     7''"
  "padStart (toString 11) 6 = ''    11''" "padStart (toString 12) 6 = ''    12''"
  "padStart (toString 13) 6 = ''    13''" "padStart (toString 14) 6 = ''    14''"
  "padStart (toString 15) 6 = ''    15''"
  by code_simp+

lemma example_format:
  assumes "length lines = 20"
  shows "formatLinesWithRanges lines [\<lparr>lr_start = 1, lr_end = 6\<rparr>, \<lparr>lr_start = 10, lr_end = 14\<rparr>]
     = join_lf [''     2| '' @ lines ! 1, ''     3| '' @ lines ! 2, ''     4| '' @ lines ! 3,
                ''     5| '' @ lines ! 4, ''     6| '' @ lines ! 5, ''     7| '' @ lines ! 6,
                ''...'',
                ''    11| '' @ lines ! 10, ''    12| '' @ lines ! 11, ''    13| '' @ lines ! 12,
                ''    14| '' @ lines ! 13, ''    15| '' @ lines ! 14]"
  using assms
  by (simp add: formatLinesWithRanges_def formatRange.simps lineText_def gutter_values)


text \<open>
  C7 as stated fails: with a reference on line 18 of a 20-line file and a budget of 2, the
  claimed interval \<open>[16 .. min(20, 20)]\<close> contains the index 20, which the loop
  \<open>i < Math.min(totalLines, endLine + contextLines + 1)\<close> never adds.
\<close>

theorem getLineRangesToDisplay_counterexample:
  "set (getLineRangesToDisplay [lineLocation 18] 20 2) \<noteq>
     (\<Union>loc \<in> set [lineLocation 18].
        {max 0 (line (range_start loc) - 2) .. min 20 (line (range_end loc) + 2)})"
proof -
  have "getLineRangesToDisplay [lineLocation 18] 20 2 = [16, 17, 18, 19]"
    by code_simp
  then have "20 \<notin> set (getLineRangesToDisplay [lineLocation 18] 20 2)"
    by simp
  moreover have "20 \<in> (\<Union>loc \<in> set [lineLocation 18].
        {max 0 (line (range_start loc) - 2) .. min 20 (line (range_end loc) + 2)})"
    by (simp add: lineLocation_def)
  ultimately show ?thesis by metis
qed

text \<open>
  C7, amended.  For a budget \<open>C \<ge> 0\<close> and references that lie inside the file
  (\<open>0 \<le> sl \<le> el < total\<close>), the set of lines to display is the union of the intervals
  \<open>[max(0, sl - C) .. min(total - 1, el + C)]\<close>.  For a 20-line file with references on
  lines 3, 4 and 12 and \<open>C = 2\<close> the ranges are \<open>[1..6]\<close> and \<open>[10..14]\<close>, rendered with the
  1-indexed gutter and one \<open>...\<close> line between them.
\<close>

theorem getLineRangesToDisplay_lines:
  assumes "0 \<le> C"
    and "\<forall>loc \<in> set locs. 0 \<le> line (range_start loc) \<and> line (range_start loc) \<le> line (range_end loc)
           \<and> line (range_end loc) < totalLines"
  shows "set (getLineRangesToDisplay locs totalLines C) =
           (\<Union>loc \<in> set locs.
              {max 0 (line (range_start loc) - C) .. min (totalLines - 1) (line (range_end loc) + C)})
    \<and> convertLinesToRanges (getLineRangesToDisplay [lineLocation 3, lineLocation 4, lineLocation 12] 20 2)
        = [\<lparr>lr_start = 1, lr_end = 6\<rparr>, \<lparr>lr_start = 10, lr_end = 14\<rparr>]
    \<and> (length lines = 20 \<longrightarrow>
        formatLinesWithRanges lines
          (convertLinesToRanges (getLineRangesToDisplay [lineLocation 3, lineLocation 4, lineLocation 12] 20 2))
        = join_lf [''     2| '' @ lines ! 1, ''     3| '' @ lines ! 2, ''     4| '' @ lines ! 3,
                   ''     5| '' @ lines ! 4, ''     6| '' @ lines ! 5, ''     7| '' @ lines ! 6,
                   ''...'',
                   ''    11| '' @ lines ! 10, ''    12| '' @ lines ! 11, ''    13| '' @ lines ! 12,
                   ''    14| '' @ lines ! 13, ''    15| '' @ lines ! 14])"
proof (intro conjI impI)
  show "set (getLineRangesToDisplay locs totalLines C) =
           (\<Union>loc \<in> set locs.
              {max 0 (line (range_start loc) - C) .. min (totalLines - 1) (line (range_end loc) + C)})"
    unfolding getLineRangesToDisplay_def
    using set_foldl_addLocation [OF assms, of "[]"] by simp
  show "convertLinesToRanges (getLineRangesToDisplay [lineLocation 3, lineLocation 4, lineLocation 12] 20 2)
        = [\<lparr>lr_start = 1, lr_end = 6\<rparr>, \<lparr>lr_start = 10, lr_end = 14\<rparr>]"
    unfolding example_lines example_ranges ..
next
  assume "length lines = 20"
  then show "formatLinesWithRanges lines
          (convertLinesToRanges (getLineRangesToDisplay [lineLocation 3, lineLocation 4, lineLocation 12] 20 2))
        = join_lf [''     2| '' @ lines ! 1, ''     3| '' @ lines ! 2, ''     4| '' @ lines ! 3,
                   ''     5| '' @ lines ! 4, ''     6| '' @ lines ! 5, ''     7| '' @ lines ! 6,
                   ''...'',
                   ''    11| '' @ lines ! 10, ''    12| '' @ lines ! 11, ''    13| '' @ lines ! 12,
                   ''    14| '' @ lines ! 13, ''    15| '' @ lines ! 14]"
    unfolding example_lines example_ranges by (rule example_format)
qed

theorem getLineRangesToDisplay_lines_witness:
  "set (getLineRangesToDisplay [lineLocation 3, lineLocation 4, lineLocation 12] 20 2)
     = {1 .. 5} \<union> {2 .. 6} \<union> {10 .. 14}
   \<and> formatLinesWithRanges (replicate 20 ''x'')
          (convertLinesToRanges (getLineRangesToDisplay [lineLocation 3, lineLocation 4, lineLocation 12] 20 2))
        = join_lf [''     2| x'', ''     3| x'', ''     4| x'', ''     5| x'', ''     6| x'', ''     7| x'',
                   ''...'',
                   ''    11| x'', ''    12| x'', ''    13| x'', ''    14| x'', ''    15| x'']"
proof -
  have c: "(0::int) \<le> 2" by simp
  have l: "\<forall>loc \<in> set [lineLocation 3, lineLocation 4, lineLocation 12].
             0 \<le> line (range_start loc) \<and> line (range_start loc) \<le> line (range_end loc)
             \<and> line (range_end loc) < 20"
    by (simp add: lineLocation_def)
  have n: "length (replicate 20 ''x'') = 20" by simp
  note t = getLineRangesToDisplay_lines [OF c l, of "replicate 20 ''x''"]
  have "set (getLineRangesToDisplay [lineLocation 3, lineLocation 4, lineLocation 12] 20 2)
     = {1 .. 5} \<union> {2 .. 6} \<union> {10 .. 14}"
    using t [THEN conjunct1] by (simp add: lineLocation_def Un_assoc)
  moreover have "formatLinesWithRanges (replicate 20 ''x'')
          (convertLinesToRanges (getLineRangesToDisplay [lineLocation 3, lineLocation 4, lineLocation 12] 20 2))
        = join_lf [''     2| x'', ''     3| x'', ''     4| x'', ''     5| x'', ''     6| x'', ''     7| x'',
                   ''...'',
                   ''    11| x'', ''    12| x'', ''    13| x'', ''    14| x'', ''    15| x'']"
    using t [THEN conjunct2, THEN conjunct2, THEN mp, OF n] by simp
  ultimately show ?thesis by (rule conjI)
qed

subsection \<open>Change notifications\<close>

lemma changeVersions_append:
  "changeVersions u (ms @ ms') = changeVersions u ms @ changeVersions u ms'"
  by (induction u ms rule: changeVersions.induct) auto

text \<open>
  The invariant of the registry and the messages written: the versions sent for a URI
  increase strictly, and each is at most the version stored for the URI, which is open.
\<close>

lemma notifyChange_invariant:
  assumes "\<And>u. sorted_wrt (<) (changeVersions u (written c)) \<and>
             (\<forall>v \<in> set (changeVersions u (written c)). \<exists>fi. openFiles c u = Some fi \<and> v \<le> version fi)"
  shows "sorted_wrt (<) (changeVersions u (written (snd (notifyChange pathToUri env c p)))) \<and>
         (\<forall>v \<in> set (changeVersions u (written (snd (notifyChange pathToUri env c p)))).
            \<exists>fi. openFiles (snd (notifyChange pathToUri env c p)) u = Some fi \<and> v \<le> version fi)"
proof (cases "openFiles c (pathToUri p)")
  case None
  then show ?thesis using assms [of u] by (simp add: notifyChange_def)
next
  case (Some fi)
  show ?thesis
  proof (cases "readFile env p")
    case None
    then show ?thesis using assms [of u] Some by (simp add: notifyChange_def)
  next
    case r: (Some content)
    show ?thesis
    proof (cases "writeSucceeds env")
      case False
      then show ?thesis using assms [of u] Some r
        by (auto simp: notifyChange_def notify_def Let_def)
    next
      case True
      then show ?thesis using assms [of u] Some r
        by (auto simp: notifyChange_def notify_def Let_def changeVersions_append sorted_wrt_append)
    qed
  qed
qed

lemma notifyChanges_invariant:
  assumes "\<And>u. sorted_wrt (<) (changeVersions u (written c)) \<and>
             (\<forall>v \<in> set (changeVersions u (written c)). \<exists>fi. openFiles c u = Some fi \<and> v \<le> version fi)"
  shows "sorted_wrt (<) (changeVersions u (written (notifyChanges pathToUri c calls)))"
  using assms
proof (induction calls arbitrary: c)
  case Nil
  then show ?case by simp
next
  case (Cons call calls)
  obtain env p where call: "call = (env, p)" by (cases call)
  show ?case
    unfolding call notifyChanges.simps
    by (rule Cons.IH) (rule notifyChange_invariant [OF Cons.prems])
qed


text \<open>
  C9 as stated fails: \<open>notifyChange\<close> also raises for an open file, when the file cannot
  be read; the registry and the messages written are then unchanged.
\<close>

theorem notifyChange_counterexample:
  "openFiles oneOpenFile (fileUri ''/w/a.ts'') \<noteq> None
   \<and> notifyChange fileUri unreadable oneOpenFile ''/w/a.ts'' = (Some ReadFileError, oneOpenFile)"
  by (simp add: notifyChange_def oneOpenFile_def unreadable_def fileUri_def Let_def)

text \<open>
  C9, amended.  \<open>notifyChange\<close> raises iff the URI is not in the registry, the file cannot
  be read, or the write fails.  When the URI is absent or the file cannot be read, it leaves
  the registry as it is and sends nothing.  For an open URI whose file is read, it
  increments the stored version by exactly one and, when the write succeeds, sends one
  full-text \<open>textDocument/didChange\<close> carrying the new version.  Over any sequence of
  calls that starts with nothing written, the versions sent for a URI increase strictly.
\<close>

theorem notifyChange_versions:
  "(fst (notifyChange pathToUri env c p) \<noteq> None \<longleftrightarrow>
      openFiles c (pathToUri p) = None \<or> readFile env p = None \<or> \<not> writeSucceeds env)
   \<and> (openFiles c (pathToUri p) = None \<longrightarrow>
        notifyChange pathToUri env c p = (Some (UnopenedFileError p), c))
   \<and> (openFiles c (pathToUri p) \<noteq> None \<and> readFile env p = None \<longrightarrow>
        notifyChange pathToUri env c p = (Some ReadFileError, c))
   \<and> (openFiles c (pathToUri p) = Some fi \<and> readFile env p = Some content \<longrightarrow>
        openFiles (snd (notifyChange pathToUri env c p)) =
          (openFiles c)(pathToUri p \<mapsto> fi\<lparr>version := version fi + 1\<rparr>)
        \<and> written (snd (notifyChange pathToUri env c p)) =
          (if writeSucceeds env
           then written c @ [Notification ''textDocument/didChange''
                               (DidChangeParams (pathToUri p) (version fi + 1) content)]
           else written c))
   \<and> (written c = [] \<longrightarrow>
        sorted_wrt (<) (changeVersions u (written (notifyChanges pathToUri c calls))))"
proof (intro conjI impI)
  show "fst (notifyChange pathToUri env c p) \<noteq> None \<longleftrightarrow>
      openFiles c (pathToUri p) = None \<or> readFile env p = None \<or> \<not> writeSucceeds env"
    by (auto simp: notifyChange_def notify_def Let_def split: option.splits)
next
  assume "openFiles c (pathToUri p) = None"
  then show "notifyChange pathToUri env c p = (Some (UnopenedFileError p), c)"
    by (simp add: notifyChange_def)
next
  assume "openFiles c (pathToUri p) \<noteq> None \<and> readFile env p = None"
  then show "notifyChange pathToUri env c p = (Some ReadFileError, c)"
    by (auto simp: notifyChange_def)
next
  assume a: "openFiles c (pathToUri p) = Some fi \<and> readFile env p = Some content"
  then show "openFiles (snd (notifyChange pathToUri env c p)) =
          (openFiles c)(pathToUri p \<mapsto> fi\<lparr>version := version fi + 1\<rparr>)"
    by (simp add: notifyChange_def notify_def Let_def)
  from a show "written (snd (notifyChange pathToUri env c p)) =
          (if writeSucceeds env
           then written c @ [Notification ''textDocument/didChange''
                               (DidChangeParams (pathToUri p) (version fi + 1) content)]
           else written c)"
    by (simp add: notifyChange_def notify_def Let_def)
next
  assume "written c = []"
  then have "\<And>u. sorted_wrt (<) (changeVersions u (written c)) \<and>
             (\<forall>v \<in> set (changeVersions u (written c)). \<exists>fi. openFiles c u = Some fi \<and> v \<le> version fi)"
    by simp
  then show "sorted_wrt (<) (changeVersions u (written (notifyChanges pathToUri c calls)))"
    by (rule notifyChanges_invariant)
qed

theorem notifyChange_versions_witness:
  "notifyChange fileUri (readable ''x'') oneOpenFile ''/w/b.ts'' = (Some (UnopenedFileError ''/w/b.ts''), oneOpenFile)
   \<and> written (snd (notifyChange fileUri (readable ''x'') oneOpenFile ''/w/a.ts''))
       = [Notification ''textDocument/didChange'' (DidChangeParams ''file:///w/a.ts'' 2 ''x'')]
   \<and> changeVersions ''file:///w/a.ts''
        (written (notifyChanges fileUri oneOpenFile
           [(readable ''x'', ''/w/a.ts''), (unreadable, ''/w/a.ts''), (readable ''y'', ''/w/a.ts'')])) = [2, 3]
   \<and> sorted_wrt (<) (changeVersions ''file:///w/a.ts''
        (written (notifyChanges fileUri oneOpenFile
           [(readable ''x'', ''/w/a.ts''), (unreadable, ''/w/a.ts''), (readable ''y'', ''/w/a.ts'')])))"
proof -
  note t = notifyChange_versions [of fileUri "readable ''x''" oneOpenFile _
      "\<lparr>version = 1, info_uri = ''file:///w/a.ts''\<rparr>" "''x''" "''file:///w/a.ts''"
      "[(readable ''x'', ''/w/a.ts''), (unreadable, ''/w/a.ts''), (readable ''y'', ''/w/a.ts'')]"]
  have 1: "notifyChange fileUri (readable ''x'') oneOpenFile ''/w/b.ts'' = (Some (UnopenedFileError ''/w/b.ts''), oneOpenFile)"
    using t [of "''/w/b.ts''", THEN conjunct2, THEN conjunct1]
    by (simp add: oneOpenFile_def fileUri_def)
  have 2: "written (snd (notifyChange fileUri (readable ''x'') oneOpenFile ''/w/a.ts''))
       = [Notification ''textDocument/didChange'' (DidChangeParams ''file:///w/a.ts'' 2 ''x'')]"
    using t [of "''/w/a.ts''", THEN conjunct2, THEN conjunct2, THEN conjunct2, THEN conjunct1]
    by (simp add: oneOpenFile_def fileUri_def readable_def)
  have 3: "changeVersions ''file:///w/a.ts''
        (written (notifyChanges fileUri oneOpenFile
           [(readable ''x'', ''/w/a.ts''), (unreadable, ''/w/a.ts''), (readable ''y'', ''/w/a.ts'')])) = [2, 3]"
    by (simp add: notifyChange_def notify_def oneOpenFile_def fileUri_def readable_def unreadable_def Let_def)
  have 4: "sorted_wrt (<) (changeVersions ''file:///w/a.ts''
        (written (notifyChanges fileUri oneOpenFile
           [(readable ''x'', ''/w/a.ts''), (unreadable, ''/w/a.ts''), (readable ''y'', ''/w/a.ts'')])))"
    using t [of "''/w/a.ts''", THEN conjunct2, THEN conjunct2, THEN conjunct2, THEN conjunct2]
    by (simp add: oneOpenFile_def)
  show ?thesis using 1 2 3 4 by blast
qed

subsection \<open>Order of workspace edits\<close>

text \<open>The key by which the edits are sorted: the negated start position.\<close>

lemma compareEdits_le:
  "compareEdits x y \<le> 0 \<longleftrightarrow> (- fst (startOf x), - snd (startOf x)) \<le> (- fst (startOf y), - snd (startOf y))"
  by (auto simp: compareEdits_def startOf_def)

lemma insertSorted_insort:
  "insertSorted compareEdits x ys = insort_key (\<lambda>e. (- fst (startOf e), - snd (startOf e))) x ys"
  by (induction ys) (simp_all add: compareEdits_le)

lemma sortBy_sort_key:
  "sortBy compareEdits xs = sort_key (\<lambda>e. (- fst (startOf e), - snd (startOf e))) xs"
  by (induction xs) (simp_all add: sortBy_def sort_key_def insertSorted_insort)

lemma sortBy_permutation:
  assumes "distinct (map startOf edits)" and "mset edits' = mset edits"
  shows "sortBy compareEdits edits' = sortBy compareEdits edits"
proof -
  let ?k = "\<lambda>e. (- fst (startOf e), - snd (startOf e))"
  have inj: "inj_on startOf (set edits)"
    using assms(1) by (simp add: distinct_map)
  have "inj_on ?k (set edits)"
  proof (rule inj_onI)
    fix x y assume "x \<in> set edits" "y \<in> set edits" "?k x = ?k y"
    then have "startOf x = startOf y" by (simp add: prod_eq_iff)
    then show "x = y" using inj \<open>x \<in> set edits\<close> \<open>y \<in> set edits\<close> by (simp add: inj_on_def)
  qed
  moreover have "set edits' = set edits" using assms(2) by (metis set_mset_mset)
  ultimately have i: "inj_on ?k (set edits')" by simp
  have m: "mset edits' = mset (sort_key ?k edits)" using assms(2) by simp
  have s: "sorted (map ?k (sort_key ?k edits))" by simp
  have "sort_key ?k edits' = sort_key ?k edits"
    using m i s by (rule sort_key_inj_key_eq)
  then show ?thesis by (simp add: sortBy_sort_key)
qed


text \<open>
  C3 as stated fails: an insertion and a replacement that start at the same position do
  not overlap, yet the two orders of the list give different contents.  The sort compares
  start positions only and is stable, so edits with equal starts are applied in the order
  of the list.
\<close>

theorem applyWorkspaceEdit_counterexample:
  "nonOverlapping (insertAt 0 3 ''X'') (replaceAt 0 3 0 5 ''Y'')
   \<and> mset [replaceAt 0 3 0 5 ''Y'', insertAt 0 3 ''X''] = mset [insertAt 0 3 ''X'', replaceAt 0 3 0 5 ''Y'']
   \<and> applyWorkspaceEdit ''abcdefg'' [insertAt 0 3 ''X'', replaceAt 0 3 0 5 ''Y''] = Inr ''abcYefg''
   \<and> applyWorkspaceEdit ''abcdefg'' [replaceAt 0 3 0 5 ''Y'', insertAt 0 3 ''X''] = Inr ''abcXYfg''"
proof (intro conjI)
  show "nonOverlapping (insertAt 0 3 ''X'') (replaceAt 0 3 0 5 ''Y'')"
    by (simp add: nonOverlapping_def positionLe_def insertAt_def replaceAt_def)
  show "mset [replaceAt 0 3 0 5 ''Y'', insertAt 0 3 ''X''] = mset [insertAt 0 3 ''X'', replaceAt 0 3 0 5 ''Y'']"
    by simp
  show "applyWorkspaceEdit ''abcdefg'' [insertAt 0 3 ''X'', replaceAt 0 3 0 5 ''Y''] = Inr ''abcYefg''"
    by code_simp
  show "applyWorkspaceEdit ''abcdefg'' [replaceAt 0 3 0 5 ''Y'', insertAt 0 3 ''X''] = Inr ''abcXYfg''"
    by code_simp
qed

text \<open>
  Edits that do not overlap and have non-empty ranges start at different positions.
\<close>

lemma nonOverlapping_startOf:
  assumes "nonOverlapping e e'"
    and "\<not> positionLe (range_end (edit_range e)) (range_start (edit_range e))"
    and "\<not> positionLe (range_end (edit_range e')) (range_start (edit_range e'))"
  shows "startOf e \<noteq> startOf e'"
  using assms by (auto simp: nonOverlapping_def positionLe_def startOf_def)

text \<open>
  C3, amended.  For edits whose start positions are pairwise distinct, every permutation
  of the list gives the same result of \<open>applyWorkspaceEdit\<close> (the same content, or the
  same error), which is also the result for the list in ascending order of start
  position.
\<close>

theorem applyWorkspaceEdit_order_independent:
  assumes "distinct (map startOf edits)" and "mset edits' = mset edits"
  shows "applyWorkspaceEdit content edits' = applyWorkspaceEdit content edits
    \<and> applyWorkspaceEdit content edits = applyWorkspaceEdit content (sort_key startOf edits)"
proof
  show "applyWorkspaceEdit content edits' = applyWorkspaceEdit content edits"
    using sortBy_permutation [OF assms] by (simp add: applyWorkspaceEdit_def)
  have "mset (sort_key startOf edits) = mset edits" by simp
  then have "sortBy compareEdits (sort_key startOf edits) = sortBy compareEdits edits"
    by (rule sortBy_permutation [OF assms(1)])
  then show "applyWorkspaceEdit content edits = applyWorkspaceEdit content (sort_key startOf edits)"
    by (simp add: applyWorkspaceEdit_def)
qed

theorem applyWorkspaceEdit_order_independent_witness:
  "distinct (map startOf [replaceAt 0 5 0 8 ''XYZ'', replaceAt 2 0 3 4 ''AB''])
   \<and> mset [replaceAt 2 0 3 4 ''AB'', replaceAt 0 5 0 8 ''XYZ''] = mset [replaceAt 0 5 0 8 ''XYZ'', replaceAt 2 0 3 4 ''AB'']
   \<and> applyWorkspaceEdit (join_lf [''hello world'', ''one'', ''two'', ''three more'', ''end''])
        [replaceAt 2 0 3 4 ''AB'', replaceAt 0 5 0 8 ''XYZ'']
      = Inr (join_lf [''helloXYZrld'', ''one'', ''ABe more'', ''end''])
   \<and> applyWorkspaceEdit (join_lf [''hello world'', ''one'', ''two'', ''three more'', ''end''])
        [replaceAt 0 5 0 8 ''XYZ'', replaceAt 2 0 3 4 ''AB'']
      = Inr (join_lf [''helloXYZrld'', ''one'', ''ABe more'', ''end''])"
proof -
  have d: "distinct (map startOf [replaceAt 0 5 0 8 ''XYZ'', replaceAt 2 0 3 4 ''AB''])"
    by (simp add: startOf_def replaceAt_def)
  have m: "mset [replaceAt 2 0 3 4 ''AB'', replaceAt 0 5 0 8 ''XYZ''] = mset [replaceAt 0 5 0 8 ''XYZ'', replaceAt 2 0 3 4 ''AB'']"
    by simp
  have e: "applyWorkspaceEdit (join_lf [''hello world'', ''one'', ''two'', ''three more'', ''end''])
        [replaceAt 0 5 0 8 ''XYZ'', replaceAt 2 0 3 4 ''AB'']
      = Inr (join_lf [''helloXYZrld'', ''one'', ''ABe more'', ''end''])"
    by code_simp
  show ?thesis
    using applyWorkspaceEdit_order_independent [OF d m, of "join_lf [''hello world'', ''one'', ''two'', ''three more'', ''end'']"] d m e
    by simp
qed


subsection \<open>Edits past the end of the file\<close>

lemma split_lf_not_Nil [simp]: "split_lf s \<noteq> []"
  by (induction s) (auto split: list.splits)

lemma join_lf_Cons: "ls \<noteq> [] \<Longrightarrow> join_lf (l # ls) = l @ LF # join_lf ls"
  by (cases ls) auto

lemma join_lf_split_lf [simp]: "join_lf (split_lf s) = s"
proof (induction s)
  case Nil
  then show ?case by simp
next
  case (Cons c s)
  show ?case
  proof (cases "c = LF")
    case True
    then show ?thesis using Cons by (simp add: join_lf_Cons)
  next
    case False
    obtain l ls where s: "split_lf s = l # ls" by (cases "split_lf s") auto
    show ?thesis using Cons False s by (cases ls) auto
  qed
qed

lemma join_lf_snoc: "ls \<noteq> [] \<Longrightarrow> join_lf (ls @ [l]) = join_lf ls @ LF # l"
  by (induction ls rule: join_lf.induct) auto

lemma split_crlf_not_Nil [simp]: "split_crlf s \<noteq> []"
  by (induction s rule: split_crlf.induct) (auto split: list.splits)

lemma split_lf_no_LF: "l \<in> set (split_lf s) \<Longrightarrow> LF \<notin> set l"
proof (induction s arbitrary: l)
  case Nil
  then show ?case by simp
next
  case (Cons c s)
  obtain m ms where s: "split_lf s = m # ms" by (cases "split_lf s") auto
  show ?case
  proof (cases "c = LF")
    case True
    then show ?thesis using Cons by auto
  next
    case False
    then have "l = c # m \<or> l \<in> set ms" using Cons.prems s by simp
    moreover have "LF \<notin> set m" using Cons.IH [of m] s by simp
    moreover have "l \<in> set ms \<Longrightarrow> LF \<notin> set l" using Cons.IH [of l] s by simp
    ultimately show ?thesis using False by auto
  qed
qed

lemma nat_int_minus [simp]:
  "nat (int n + 1 - 1) = n" "nat (int n + 2 - 1) = n + 1" "nat (int n + 2 - 1 - 1) = n"
  "nat (1 + int n) = Suc n"
  by simp_all

lemma eof_position:
  assumes "lines \<noteq> []"
  shows "(let lastContentLineIdx = int (length lines) - 1;
              lastContentLineIdx =
                (if lastContentLineIdx \<ge> 0 \<and> lines ! nat lastContentLineIdx = []
                 then lastContentLineIdx - 1 else lastContentLineIdx);
              lastContentLineIdx = (if lastContentLineIdx < 0 then 0 else lastContentLineIdx)
          in \<lparr>line = lastContentLineIdx, character = lengthAt lines lastContentLineIdx\<rparr>)
     = (let k = (if last lines = [] \<and> 2 \<le> length lines then length lines - 2 else length lines - 1)
        in \<lparr>line = int k, character = int (length (lines ! k))\<rparr>)"
proof -
  obtain xs l where xl: "lines = xs @ [l]"
    using assms by (metis rev_exhaust)
  show ?thesis
  proof (cases "xs = []")
    case True
    then show ?thesis using xl by (simp add: lengthAt_def Let_def)
  next
    case False
    then obtain ys m where ym: "xs = ys @ [m]" by (metis rev_exhaust)
    have len: "int (length lines) = int (length ys) + 2" using xl ym by simp
    show ?thesis
    proof (cases "l = []")
      case True
      then show ?thesis unfolding Let_def len using xl ym
        by (simp add: lengthAt_def nth_append)
    next
      case False
      then show ?thesis unfolding Let_def len using xl ym
        by (simp add: lengthAt_def nth_append)
    qed
  qed
qed


lemma split_lf_line: "LF \<notin> set l \<Longrightarrow> split_lf (l @ LF # rest) = l # split_lf rest"
  by (induction l) auto

lemma split_lf_single: "LF \<notin> set l \<Longrightarrow> split_lf l = [l]"
  by (induction l) auto

lemma split_lf_join_lf:
  "ls \<noteq> [] \<Longrightarrow> \<forall>l \<in> set ls. LF \<notin> set l \<Longrightarrow> split_lf (join_lf ls) = ls"
proof (induction ls rule: join_lf.induct)
  case 1
  then show ?case by simp
next
  case (2 l)
  then show ?case by (simp add: split_lf_single)
next
  case (3 l m ls)
  then show ?case by (simp add: split_lf_line)
qed

lemma split_crlf_line: "LF \<notin> set l \<Longrightarrow> split_crlf (l @ CR # LF # rest) = l # split_crlf rest"
proof (induction l)
  case Nil
  then show ?case by simp
next
  case (Cons c l)
  then have ih: "split_crlf (l @ CR # LF # rest) = l # split_crlf rest" by simp
  obtain d ds where d: "l @ CR # LF # rest = d # ds" "d \<noteq> LF"
    using Cons.prems by (cases l) (auto simp: CR_def LF_def)
  show ?case using ih d by simp
qed

lemma split_crlf_single: "LF \<notin> set l \<Longrightarrow> split_crlf l = [l]"
  by (induction l rule: split_crlf.induct) auto

lemma split_crlf_join_crlf:
  "ls \<noteq> [] \<Longrightarrow> \<forall>l \<in> set ls. LF \<notin> set l \<Longrightarrow> split_crlf (join_crlf ls) = ls"
proof (induction ls rule: join_crlf.induct)
  case 1
  then show ?case by simp
next
  case (2 l)
  then show ?case by (simp add: split_crlf_single)
next
  case (3 l m ls)
  then show ?case by (simp add: split_crlf_line)
qed

lemma join_lf_with_CR:
  "join_lf (map (\<lambda>x. x @ [CR]) xs @ [z]) = join_crlf (xs @ [z])"
proof (induction xs)
  case Nil
  then show ?case by simp
next
  case (Cons x xs)
  then show ?case by (cases xs) simp_all
qed

lemma length_split_lf_Cons:
  "length (split_lf (c # cs)) = (if c = LF then 1 else 0) + length (split_lf cs)"
  by (cases "split_lf cs") auto

lemma length_split_crlf_le: "length (split_crlf s) \<le> length (split_lf s)"
proof (induction s rule: split_crlf.induct)
  case 1
  then show ?case by simp
next
  case (2 c)
  then show ?case by simp
next
  case (3 c d cs)
  show ?case
  proof (cases "c = CR \<and> d = LF")
    case True
    then show ?thesis using 3 by (simp add: length_split_lf_Cons CR_def LF_def)
  next
    case False
    obtain l ls where s: "split_crlf (d # cs) = l # ls" by (cases "split_crlf (d # cs)") auto
    have "length (split_crlf (c # d # cs)) = length (split_crlf (d # cs))"
      using False s by auto
    also have "\<dots> \<le> length (split_lf (d # cs))" using 3 False by blast
    also have "\<dots> \<le> length (split_lf (c # d # cs))"
      by (subst (2) length_split_lf_Cons) simp
    finally show ?thesis .
  qed
qed

lemma indexOf_suffix: "0 \<le> indexOf (a @ p) p"
proof (induction a)
  case Nil
  then show ?case by (cases p) (simp_all add: startsWith_def)
next
  case (Cons x a)
  then show ?case by (simp add: Let_def)
qed

lemma endsWith_str_includes: "endsWith s p \<Longrightarrow> str_includes s p"
proof -
  assume "endsWith s p"
  then have "s = take (length s - length p) s @ p"
    by (metis append_take_drop_id endsWith_def)
  then show ?thesis using indexOf_suffix [of "take (length s - length p) s" p]
    by (simp add: str_includes_def)
qed

lemma join_lf_last_append: "join_lf (ys @ [a @ b]) = join_lf (ys @ [a]) @ b"
  by (cases "ys = []") (simp_all add: join_lf_snoc)


lemma length_split_lf: "length (split_lf s) = lineCount s"
  by (induction s) (simp_all add: lineCount_def length_split_lf_Cons del: split_lf.simps(2))

lemma split_lf_two: "LF \<in> set s \<Longrightarrow> \<exists>l m ls. split_lf s = l # m # ls"
proof -
  assume "LF \<in> set s"
  then have "filter (\<lambda>c. c = LF) s \<noteq> []" by (simp add: filter_empty_conv)
  then have "2 \<le> length (split_lf s)"
    unfolding length_split_lf lineCount_def by (cases "filter (\<lambda>c. c = LF) s") simp_all
  then show ?thesis
    by (cases "split_lf s" rule: remdups_adj.cases) simp_all
qed

lemma last_split_lf:
  "length (last (split_lf s)) = length (takeWhile (\<lambda>c. c \<noteq> LF) (rev s))"
proof (induction s)
  case Nil
  then show ?case by simp
next
  case (Cons c cs)
  show ?case
  proof (cases "LF \<in> set cs")
    case True
    then obtain l m ls where s: "split_lf cs = l # m # ls" using split_lf_two by blast
    have "takeWhile (\<lambda>c. c \<noteq> LF) (rev cs @ [c]) = takeWhile (\<lambda>c. c \<noteq> LF) (rev cs)"
      using True by (auto simp: takeWhile_append)
    then show ?thesis using Cons s by simp
  next
    case False
    then have s: "split_lf cs = [cs]" by (rule split_lf_single)
    have "takeWhile (\<lambda>c. c \<noteq> LF) (rev cs @ [c]) = rev cs @ (if c = LF then [] else [c])"
      using False by (simp add: takeWhile_append)
    then show ?thesis using s by simp
  qed
qed

lemma positionAt_split_lf:
  "positionAt content p =
     \<lparr>line = int (length (split_lf (take p content))) - 1,
      character = int (length (last (split_lf (take p content))))\<rparr>"
  by (simp add: positionAt_def length_split_lf lineCount_def last_split_lf)

lemma endsWith_append: "endsWith (a @ p) p"
  by (simp add: endsWith_def)

lemma endsWith_last: "endsWith s [c] \<longleftrightarrow> s \<noteq> [] \<and> last s = c"
proof (cases s rule: rev_cases)
  case Nil
  then show ?thesis by (simp add: endsWith_def)
next
  case (snoc ys y)
  then show ?thesis by (simp add: endsWith_def)
qed

lemma endsWith_CRLF_LF: "endsWith s [CR, LF] \<Longrightarrow> endsWith s [LF]"
proof -
  assume e: "endsWith s [CR, LF]"
  then have "s = take (length s - 2) s @ [CR, LF]"
    by (metis append_take_drop_id endsWith_def length_Cons list.size(3) numeral_2_eq_2)
  then have "s \<noteq> [] \<and> last s = LF" by (metis append_is_Nil_conv last.simps last_appendR list.distinct(1))
  then show ?thesis by (simp add: endsWith_last)
qed

lemma applyWorkspaceEdit_single_insert:
  assumes "k < length (split_lf content)"
  shows "applyWorkspaceEdit content
           [\<lparr>edit_range = \<lparr>range_start = \<lparr>line = int k, character = int c\<rparr>,
                           range_end = \<lparr>line = int k, character = int c\<rparr>\<rparr>,
             newText = t\<rparr>]
         = Inr (join_lf ((split_lf content)
                  [k := take c (split_lf content ! k) @ t @ drop c (split_lf content ! k)]))"
  using assms
  by (simp add: applyWorkspaceEdit_def sortBy_def applyEdit_def substringTo_def substringFrom_def)

text \<open>
  The lines \<open>R\<close> that \<open>getRange\<close> sees, and the lines that \<open>applyWorkspaceEdit\<close> sees: the
  same lines, each but the last followed by \<open>cr\<close>, which is empty for a file with LF line
  breaks and a carriage return for a file with CR LF line breaks.
\<close>

lemma eof_insert_core:
  fixes R :: "string list"
  assumes cr: "cr = [] \<or> cr = [CR]"
    and ne: "R \<noteq> []"
    and nolf: "\<forall>l \<in> set R. LF \<notin> set l"
    and content: "content = join_lf (map (\<lambda>x. x @ cr) (butlast R) @ [last R])"
  defines "k \<equiv> (if last R = [] \<and> 2 \<le> length R then length R - 2 else length R - 1)"
  defines "p \<equiv> (if last R = [] \<and> 2 \<le> length R then length content - (length cr + 1)
                 else length content)"
  shows "positionAt content p = \<lparr>line = int k, character = int (length (R ! k))\<rparr>"
    and "applyWorkspaceEdit content
           [\<lparr>edit_range = \<lparr>range_start = \<lparr>line = int k, character = int (length (R ! k))\<rparr>,
                           range_end = \<lparr>line = int k, character = int (length (R ! k))\<rparr>\<rparr>,
             newText = t\<rparr>]
         = Inr (take p content @ t @ drop p content)"
    and "if last R = [] \<and> 2 \<le> length R then endsWith content (cr @ [LF])
         else \<not> endsWith content [LF]"
proof -
  let ?L = "map (\<lambda>x. x @ cr) (butlast R) @ [last R]"
  have crlf: "LF \<notin> set cr" using cr by (auto simp: CR_def LF_def)
  have Lnolf: "\<forall>l \<in> set ?L. LF \<notin> set l"
    using nolf crlf ne by (auto dest: in_set_butlastD)
  have sp: "split_lf content = ?L"
    unfolding content using Lnolf by (intro split_lf_join_lf) simp_all
  have all: "positionAt content p = \<lparr>line = int k, character = int (length (R ! k))\<rparr>
    \<and> applyWorkspaceEdit content
           [\<lparr>edit_range = \<lparr>range_start = \<lparr>line = int k, character = int (length (R ! k))\<rparr>,
                           range_end = \<lparr>line = int k, character = int (length (R ! k))\<rparr>\<rparr>,
             newText = t\<rparr>]
         = Inr (take p content @ t @ drop p content)
    \<and> (if last R = [] \<and> 2 \<le> length R then endsWith content (cr @ [LF])
         else \<not> endsWith content [LF])"
  proof (cases "last R = [] \<and> 2 \<le> length R")
    case True
    obtain xs l where xl: "R = xs @ [l]" using ne by (metis rev_exhaust)
    then have l: "l = []" and "xs \<noteq> []" using True by auto
    then obtain ys m where ym: "xs = ys @ [m]" by (metis rev_exhaust)
    have R: "R = ys @ [m, []]" using xl ym l by simp
    let ?Y = "map (\<lambda>x. x @ cr) ys"
    have L: "?L = ?Y @ [m @ cr, []]" using R by (simp add: butlast_append)
    have k: "k = length ys" using True R by (simp add: k_def)
    have Rk: "R ! k = m" using R k by (simp add: nth_append)
    have c1: "content = join_lf (?Y @ [m]) @ cr @ [LF]"
      unfolding content L
      using join_lf_snoc [of "?Y @ [m @ cr]" "[]"] join_lf_last_append [of ?Y m cr] by simp
    have p: "p = length (join_lf (?Y @ [m]))" using True unfolding p_def c1 by simp
    have tk: "take p content = join_lf (?Y @ [m])" and dr: "drop p content = cr @ [LF]"
      unfolding p c1 by simp_all
    have m: "LF \<notin> set m" using nolf R by simp
    have "\<forall>l \<in> set (?Y @ [m]). LF \<notin> set l" using Lnolf L m by auto
    then have sp1: "split_lf (join_lf (?Y @ [m])) = ?Y @ [m]"
      by (intro split_lf_join_lf) simp_all
    have pos: "positionAt content p = \<lparr>line = int k, character = int (length (R ! k))\<rparr>"
      unfolding positionAt_split_lf tk sp1 using k Rk by simp
    have kl: "k < length (split_lf content)" unfolding sp L k by simp
    have "join_lf ((?Y @ [m @ cr, []])[k := take (length m) (m @ cr) @ t @ drop (length m) (m @ cr)])
        = join_lf (?Y @ [m @ (t @ cr), []])"
      unfolding k by (simp add: list_update_append)
    also have "\<dots> = join_lf (?Y @ [m]) @ t @ cr @ [LF]"
      using join_lf_snoc [of "?Y @ [m @ (t @ cr)]" "[]"] join_lf_last_append [of ?Y m "t @ cr"]
      by simp
    finally have ap: "applyWorkspaceEdit content
           [\<lparr>edit_range = \<lparr>range_start = \<lparr>line = int k, character = int (length (R ! k))\<rparr>,
                           range_end = \<lparr>line = int k, character = int (length (R ! k))\<rparr>\<rparr>,
             newText = t\<rparr>]
         = Inr (take p content @ t @ drop p content)"
      unfolding applyWorkspaceEdit_single_insert [OF kl] sp L Rk tk dr
      by (simp add: k nth_append)
    have "endsWith content (cr @ [LF])"
      using endsWith_append [of "join_lf (?Y @ [m])" "cr @ [LF]"] c1 by simp
    then show ?thesis using True pos ap by simp
  next
    case False
    obtain xs l where xl: "R = xs @ [l]" using ne by (metis rev_exhaust)
    let ?X = "map (\<lambda>x. x @ cr) xs"
    have L: "?L = ?X @ [l]" using xl by simp
    have k: "k = length xs" using False xl by (auto simp: k_def)
    have Rk: "R ! k = l" using xl k by simp
    have p: "p = length content" using False by (auto simp: p_def)
    have pos: "positionAt content p = \<lparr>line = int k, character = int (length (R ! k))\<rparr>"
      unfolding positionAt_split_lf p using sp L k Rk by simp
    have kl: "k < length (split_lf content)" unfolding sp L k by simp
    have "join_lf ((?X @ [l])[k := take (length l) l @ t @ drop (length l) l]) = join_lf (?X @ [l @ t])"
      unfolding k by (simp add: list_update_append)
    also have "\<dots> = join_lf (?X @ [l]) @ t"
      by (rule join_lf_last_append)
    finally have ap: "applyWorkspaceEdit content
           [\<lparr>edit_range = \<lparr>range_start = \<lparr>line = int k, character = int (length (R ! k))\<rparr>,
                           range_end = \<lparr>line = int k, character = int (length (R ! k))\<rparr>\<rparr>,
             newText = t\<rparr>]
         = Inr (take p content @ t @ drop p content)"
      unfolding applyWorkspaceEdit_single_insert [OF kl] sp L Rk p
      using content L by (simp add: k nth_append)
    have e: "\<not> endsWith content [LF]"
    proof (cases "l = []")
      case True
      then have "xs = []" using False xl by (cases xs) auto
      then show ?thesis using content L True by (simp add: endsWith_def)
    next
      case l: False
      have "LF \<notin> set l" using nolf xl by simp
      then have "last l \<noteq> LF" using l last_in_set by metis
      moreover have "last content = last l"
        unfolding content L using l by (cases "?X = []") (simp_all add: join_lf_snoc)
      ultimately show ?thesis by (simp add: endsWith_last)
    qed
    show ?thesis using False pos ap e by auto
  qed
  show "positionAt content p = \<lparr>line = int k, character = int (length (R ! k))\<rparr>"
    using all by blast
  show "applyWorkspaceEdit content
           [\<lparr>edit_range = \<lparr>range_start = \<lparr>line = int k, character = int (length (R ! k))\<rparr>,
                           range_end = \<lparr>line = int k, character = int (length (R ! k))\<rparr>\<rparr>,
             newText = t\<rparr>]
         = Inr (take p content @ t @ drop p content)"
    using all by blast
  show "if last R = [] \<and> 2 \<le> length R then endsWith content (cr @ [LF])
         else \<not> endsWith content [LF]"
    using all by blast
qed


lemma getRange_past_eof:
  assumes "int (length (split_lf content)) < startLine"
    and "R = (if str_includes content [CR, LF] then split_crlf content else split_lf content)"
  shows "getRange content startLine endLine =
     (let k = (if last R = [] \<and> 2 \<le> length R then length R - 2 else length R - 1);
          pos = \<lparr>line = int k, character = int (length (R ! k))\<rparr>
      in Inr \<lparr>range_start = pos, range_end = pos\<rparr>)"
proof -
  have ne: "R \<noteq> []" using assms(2) by simp
  then have n: "1 \<le> int (length R)" by (cases R) simp_all
  have "length R \<le> length (split_lf content)"
    using assms(2) length_split_crlf_le [of content] by simp
  then have lt: "int (length R) < startLine" using assms(1) by simp
  have g: "getRange content startLine endLine =
     (let pos = (let lastContentLineIdx = int (length R) - 1;
            lastContentLineIdx =
              (if lastContentLineIdx \<ge> 0 \<and> R ! nat lastContentLineIdx = []
               then lastContentLineIdx - 1 else lastContentLineIdx);
            lastContentLineIdx = (if lastContentLineIdx < 0 then 0 else lastContentLineIdx)
         in \<lparr>line = lastContentLineIdx, character = lengthAt R lastContentLineIdx\<rparr>)
      in Inr \<lparr>range_start = pos, range_end = pos\<rparr>)"
    using lt n unfolding getRange_def assms(2) [symmetric] Let_def by simp
  show ?thesis unfolding g eof_position [OF ne] by (simp add: Let_def)
qed

lemma split_crlf_no_LF_uniform:
  assumes "list_all (\<lambda>l. endsWith l [CR]) (butlast (split_lf content))"
  shows "split_lf content = map (\<lambda>x. x @ [CR]) (butlast (split_crlf content)) @ [last (split_crlf content)]
         \<and> (\<forall>l \<in> set (split_crlf content). LF \<notin> set l)"
proof -
  let ?S = "split_lf content"
  let ?X = "map butlast (butlast ?S)"
  have S: "?S = butlast ?S @ [last ?S]" by simp
  have "\<forall>l \<in> set (butlast ?S). l = butlast l @ [CR]"
  proof
    fix l
    assume "l \<in> set (butlast ?S)"
    then have "endsWith l [CR]" using assms by (simp add: list_all_iff)
    then have "l \<noteq> [] \<and> last l = CR" by (simp add: endsWith_last)
    then show "l = butlast l @ [CR]" by (metis append_butlast_last_id)
  qed
  then have b: "butlast ?S = map (\<lambda>x. x @ [CR]) ?X"
    by (simp add: map_idI [symmetric] o_def)
  have S': "?S = map (\<lambda>x. x @ [CR]) ?X @ [last ?S]" using S b by simp
  have nolfS: "\<forall>l \<in> set ?S. LF \<notin> set l" using split_lf_no_LF by blast
  have nolf: "\<forall>l \<in> set (?X @ [last ?S]). LF \<notin> set l"
  proof
    fix l
    assume "l \<in> set (?X @ [last ?S])"
    then consider "l = last ?S" | m where "m \<in> set (butlast ?S)" "l = butlast m" by auto
    then show "LF \<notin> set l"
    proof cases
      case 1
      then show ?thesis using nolfS by simp
    next
      case 2
      then have "LF \<notin> set m" using nolfS by (auto dest: in_set_butlastD)
      then show ?thesis using 2 by (auto dest: in_set_butlastD)
    qed
  qed
  have "content = join_lf ?S" by simp
  also have "\<dots> = join_crlf (?X @ [last ?S])"
    by (subst S') (rule join_lf_with_CR)
  finally have c: "content = join_crlf (?X @ [last ?S])" .
  have "split_crlf (join_crlf (?X @ [last ?S])) = ?X @ [last ?S]"
    using nolf by (intro split_crlf_join_crlf) simp_all
  then have sc: "split_crlf content = ?X @ [last ?S]" using c by simp
  show ?thesis using S' nolf unfolding sc by simp
qed

lemma uniform_lines:
  assumes "uniformLineBreaks content"
    and "R = (if str_includes content [CR, LF] then split_crlf content else split_lf content)"
    and "cr = (if str_includes content [CR, LF] then [CR] else [])"
  shows "R \<noteq> []" and "\<forall>l \<in> set R. LF \<notin> set l"
    and "content = join_lf (map (\<lambda>x. x @ cr) (butlast R) @ [last R])"
proof -
  have "R \<noteq> [] \<and> (\<forall>l \<in> set R. LF \<notin> set l)
      \<and> content = join_lf (map (\<lambda>x. x @ cr) (butlast R) @ [last R])"
  proof (cases "str_includes content [CR, LF]")
    case True
    then have u: "list_all (\<lambda>l. endsWith l [CR]) (butlast (split_lf content))"
      using assms(1) by (simp add: uniformLineBreaks_def)
    have R: "R = split_crlf content" and cr: "cr = [CR]" using True assms by simp_all
    have "join_lf (split_lf content) = content" by simp
    then show ?thesis using split_crlf_no_LF_uniform [OF u] unfolding R cr by simp
  next
    case False
    have R: "R = split_lf content" and cr: "cr = []" using False assms by simp_all
    have "\<forall>l \<in> set (split_lf content). LF \<notin> set l" using split_lf_no_LF by blast
    then show ?thesis unfolding R cr by simp
  qed
  then show "R \<noteq> []" and "\<forall>l \<in> set R. LF \<notin> set l"
    and "content = join_lf (map (\<lambda>x. x @ cr) (butlast R) @ [last R])" by blast+
qed

text \<open>
  C6 as stated fails: for the file \<open>a\<close>, line feed (two lines, the last one empty) and
  start line 3, the range is the zero-width range at the end of line 0, before the final
  line feed, and applying the edit with the text \<open>X\<close> gives \<open>aX\<close>, line feed: line 1 of
  the file has changed and the text is not at the end of the file.
\<close>

theorem getRange_counterexample:
  "int (lineCount (''a'' @ [LF])) < 3
   \<and> getRange (''a'' @ [LF]) 3 3 = Inr (edit_range (insertAt 0 1 ''X''))
   \<and> applyWorkspaceEdit (''a'' @ [LF]) [insertAt 0 1 ''X''] = Inr (''aX'' @ [LF])
   \<and> ''aX'' @ [LF] \<noteq> (''a'' @ [LF]) @ ''X''"
proof (intro conjI)
  show "int (lineCount (''a'' @ [LF])) < 3" by code_simp
  show "getRange (''a'' @ [LF]) 3 3 = Inr (edit_range (insertAt 0 1 ''X''))" by code_simp
  show "applyWorkspaceEdit (''a'' @ [LF]) [insertAt 0 1 ''X''] = Inr (''aX'' @ [LF])" by code_simp
  show "''aX'' @ [LF] \<noteq> (''a'' @ [LF]) @ ''X''" by (simp add: LF_def)
qed

text \<open>
  C6, amended.  For every file content and every edit whose start line exceeds the
  number of lines of the file, \<open>getRange\<close> returns a zero-width range.  When the line
  breaks of the file are uniform, the range is at the end of the file if the content does
  not end with a line break, and just before the final line break if it does; applying
  the edit inserts the new text at that offset and keeps every character of the content.
\<close>

theorem getRange_past_eof_insert:
  assumes "int (lineCount content) < startLine"
  shows "(\<exists>pos. getRange content startLine endLine = Inr \<lparr>range_start = pos, range_end = pos\<rparr>)
     \<and> (uniformLineBreaks content \<longrightarrow>
          (let p = length content - finalBreak content;
               pos = positionAt content p
           in getRange content startLine endLine = Inr \<lparr>range_start = pos, range_end = pos\<rparr>
              \<and> applyWorkspaceEdit content
                   [\<lparr>edit_range = \<lparr>range_start = pos, range_end = pos\<rparr>, newText = t\<rparr>]
                 = Inr (take p content @ t @ drop p content)))"
proof -
  define R where "R = (if str_includes content [CR, LF] then split_crlf content else split_lf content)"
  define cr where "cr = (if str_includes content [CR, LF] then [CR] else [])"
  define k where "k = (if last R = [] \<and> 2 \<le> length R then length R - 2 else length R - 1)"
  define q where "q = (if last R = [] \<and> 2 \<le> length R then length content - (length cr + 1)
                       else length content)"
  have lt: "int (length (split_lf content)) < startLine" using assms by (simp add: length_split_lf)
  have g: "getRange content startLine endLine =
      Inr \<lparr>range_start = \<lparr>line = int k, character = int (length (R ! k))\<rparr>,
           range_end = \<lparr>line = int k, character = int (length (R ! k))\<rparr>\<rparr>"
    using getRange_past_eof [OF lt R_def, of endLine] by (simp add: Let_def k_def)
  have u: "getRange content startLine endLine =
             Inr \<lparr>range_start = positionAt content (length content - finalBreak content),
                  range_end = positionAt content (length content - finalBreak content)\<rparr>
         \<and> applyWorkspaceEdit content
                   [\<lparr>edit_range = \<lparr>range_start = positionAt content (length content - finalBreak content),
                                   range_end = positionAt content (length content - finalBreak content)\<rparr>,
                     newText = t\<rparr>]
                 = Inr (take (length content - finalBreak content) content @ t @
                        drop (length content - finalBreak content) content)"
    if uni: "uniformLineBreaks content"
  proof -
    have crs: "cr = [] \<or> cr = [CR]" by (simp add: cr_def)
    note ul = uniform_lines [OF uni R_def cr_def]
    note core = eof_insert_core [OF crs ul, folded k_def q_def]
    have fb: "length content - finalBreak content = q"
    proof (cases "last R = [] \<and> 2 \<le> length R")
      case True
      then have e: "endsWith content (cr @ [LF])" using core(3) by simp
      show ?thesis
      proof (cases "str_includes content [CR, LF]")
        case True
        then show ?thesis using e \<open>last R = [] \<and> 2 \<le> length R\<close>
          by (simp add: cr_def finalBreak_def q_def)
      next
        case False
        then have "\<not> endsWith content [CR, LF]" using endsWith_str_includes by blast
        then show ?thesis using e False \<open>last R = [] \<and> 2 \<le> length R\<close>
          by (simp add: cr_def finalBreak_def q_def)
      qed
    next
      case False
      then have e: "\<not> endsWith content [LF]" using core(3) by auto
      then have "\<not> endsWith content [CR, LF]" using endsWith_CRLF_LF by blast
      then show ?thesis using e False by (auto simp: finalBreak_def q_def)
    qed
    show ?thesis unfolding fb using core(1) core(2) g by simp
  qed
  show ?thesis using g u by (simp add: Let_def)
qed

theorem getRange_past_eof_insert_witness:
  "int (lineCount (''a'' @ [CR, LF] @ ''b'' @ [CR, LF])) < 4
   \<and> uniformLineBreaks (''a'' @ [CR, LF] @ ''b'' @ [CR, LF])
   \<and> getRange (''a'' @ [CR, LF] @ ''b'' @ [CR, LF]) 4 9 = Inr (edit_range (insertAt 1 1 ''X''))
   \<and> applyWorkspaceEdit (''a'' @ [CR, LF] @ ''b'' @ [CR, LF]) [insertAt 1 1 ''X'']
       = Inr (''a'' @ [CR, LF] @ ''bX'' @ [CR, LF])"
proof -
  let ?c = "''a'' @ [CR, LF] @ ''b'' @ [CR, LF]"
  have a: "int (lineCount ?c) < 4" by code_simp
  have n: "uniformLineBreaks ?c" by code_simp
  have f: "length ?c - finalBreak ?c = 4" by code_simp
  have r: "positionAt ?c 4 = \<lparr>line = 1, character = 1\<rparr>" by code_simp
  have i: "insertAt 1 1 ''X'' =
      \<lparr>edit_range = \<lparr>range_start = \<lparr>line = 1, character = 1\<rparr>, range_end = \<lparr>line = 1, character = 1\<rparr>\<rparr>,
       newText = ''X''\<rparr>"
    by (simp add: insertAt_def replaceAt_def)
  have t: "take 4 ?c @ ''X'' @ drop 4 ?c = ''a'' @ [CR, LF] @ ''bX'' @ [CR, LF]" by simp
  show ?thesis
    using getRange_past_eof_insert [OF a, of 9 "''X''", THEN conjunct2, THEN mp, OF n] a n
    unfolding Let_def f r i t by simp
qed

text \<open>
  When a file mixes the two kinds of line break, \<open>getRange\<close> splits the content at CR LF
  and \<open>applyWorkspaceEdit\<close> at LF, so that the range is not a position of the lines that
  the edit is applied to: for the lines \<open>a\<close>, \<open>bb\<close>, \<open>c\<close> with a CR LF after the first and a
  LF after the second, the range is at character 4 of line 1, and the text goes to the
  end of \<open>bb\<close>.  The statement above says nothing of such files.
\<close>

lemma getRange_mixed_line_breaks:
  "\<not> uniformLineBreaks (''a'' @ [CR, LF] @ ''bb'' @ [LF] @ ''c'')
   \<and> getRange (''a'' @ [CR, LF] @ ''bb'' @ [LF] @ ''c'') 4 4 = Inr (edit_range (insertAt 1 4 ''X''))
   \<and> applyWorkspaceEdit (''a'' @ [CR, LF] @ ''bb'' @ [LF] @ ''c'') [insertAt 1 4 ''X'']
       = Inr (''a'' @ [CR, LF] @ ''bbX'' @ [LF] @ ''c'')"
  by (intro conjI; code_simp)


subsection \<open>Framing round trip\<close>

lemma digitChar_cases:
  assumes "n < 10"
  shows "isDigit (digitChar n) \<and> digitValue (digitChar n) = n \<and> \<not> isWhiteSpace (digitChar n)
         \<and> digitChar n \<noteq> CHR ''-'' \<and> digitChar n \<noteq> CHR ''+'' \<and> digitChar n \<noteq> CR
         \<and> digitChar n \<noteq> LF \<and> isAscii (digitChar n)"
proof -
  have "n \<in> {0, 1, 2, 3, 4, 5, 6, 7, 8, 9}"
    using assms by auto
  then show ?thesis
    by (elim insertE emptyE)
       (simp_all add: digitChar_def isDigit_def digitValue_def isWhiteSpace_def CR_def LF_def
          isAscii_def)
qed

lemma digits_not_Nil [simp]: "digits n \<noteq> []"
  by (subst digits.simps) simp

lemma digits_all:
  "c \<in> set (digits n) \<Longrightarrow> isDigit c \<and> c \<noteq> CR \<and> c \<noteq> LF \<and> isAscii c"
proof (induction n arbitrary: c rule: digits.induct)
  case (1 n)
  show ?case
  proof (cases "n < 10")
    case True
    then have "c = digitChar n" using "1.prems" by (subst (asm) digits.simps) simp
    then show ?thesis using digitChar_cases [OF True] by simp
  next
    case False
    then have "c \<in> set (digits (n div 10)) \<or> c = digitChar (n mod 10)"
      using "1.prems" by (subst (asm) digits.simps) auto
    then show ?thesis
      using "1.IH" [OF False] digitChar_cases [of "n mod 10"] by auto
  qed
qed

lemma digits_value:
  "foldl (\<lambda>acc c. 10 * acc + digitValue c) 0 (digits n) = n"
proof (induction n rule: digits.induct)
  case (1 n)
  show ?case
  proof (cases "n < 10")
    case True
    then have "digits n = [digitChar n]" by (subst digits.simps) simp
    then show ?thesis using digitChar_cases [OF True] by simp
  next
    case False
    then have "digits n = digits (n div 10) @ [digitChar (n mod 10)]"
      by (subst digits.simps) simp
    then show ?thesis using "1.IH" [OF False] digitChar_cases [of "n mod 10"] by simp
  qed
qed

lemma isDigit_cases:
  "isDigit c \<Longrightarrow>
   \<not> isWhiteSpace c \<and> c \<noteq> CHR ''-'' \<and> c \<noteq> CHR ''+'' \<and> c \<noteq> CR \<and> c \<noteq> LF \<and> isAscii c"
proof -
  have "\<forall>c \<in> set ''0123456789''.
          \<not> isWhiteSpace c \<and> c \<noteq> CHR ''-'' \<and> c \<noteq> CHR ''+'' \<and> c \<noteq> CR \<and> c \<noteq> LF \<and> isAscii c"
    by code_simp
  moreover assume "isDigit c"
  ultimately show ?thesis unfolding isDigit_def by blast
qed

lemma parseInt_decimal:
  assumes "ds \<noteq> []" and "list_all isDigit ds"
  shows "parseInt ds = Num (int (decimalValue ds))"
proof -
  have h: "\<not> isWhiteSpace (hd ds) \<and> hd ds \<noteq> CHR ''-'' \<and> hd ds \<noteq> CHR ''+''"
    using assms isDigit_cases [of "hd ds"] by (cases ds) simp_all
  have w: "dropWhile isWhiteSpace ds = ds"
    using h assms(1) by (cases ds) simp_all
  have t: "takeWhile isDigit ds = ds"
    using assms(2) by (simp add: takeWhile_eq_all_conv list_all_iff)
  have u: "(if ds \<noteq> [] \<and> (hd ds = CHR ''-'' \<or> hd ds = CHR ''+'') then tl ds else ds) = ds"
    using h by simp
  have n: "\<not> (ds \<noteq> [] \<and> hd ds = CHR ''-'')" using h by simp
  show ?thesis
    unfolding parseInt_def Let_def w u t using n assms(1) by (simp add: decimalValue_def)
qed

lemma digits_decimal: "list_all isDigit (digits n) \<and> decimalValue (digits n) = n"
  using digits_all [of _ n] digits_value [of n] by (simp add: list_all_iff decimalValue_def)

lemma toString_nat [simp]: "toString (int n) = digits n"
  by (simp add: toString_def)

lemma startsWith_append [simp]: "startsWith (p @ rest) p"
  by (simp add: startsWith_def)

lemma startsWith_other_head: "c \<noteq> d \<Longrightarrow> \<not> startsWith (c # xs) (d # p)"
  by (simp add: startsWith_def)

lemma startsWith_short: "length xs < length p \<Longrightarrow> \<not> startsWith xs p"
proof
  assume "length xs < length p" and "startsWith xs p"
  then have "length (take (length p) xs) = length p" by (simp add: startsWith_def)
  then show False using \<open>length xs < length p\<close> by simp
qed

lemma indexOf_short: "length xs < length p \<Longrightarrow> indexOf xs p = - 1"
proof (induction xs)
  case Nil
  then show ?case by auto
next
  case (Cons x xs)
  have "\<not> startsWith (x # xs) p" using Cons.prems by (rule startsWith_short)
  moreover have "indexOf xs p = - 1" using Cons by simp
  ultimately show ?case by simp
qed

lemma indexOf_separator:
  "d \<notin> set h \<Longrightarrow> indexOf (h @ (d # p) @ rest) (d # p) = int (length h)"
proof (induction h)
  case Nil
  have "startsWith ((d # p) @ rest) (d # p)" by (rule startsWith_append)
  then show ?case by simp
next
  case (Cons c h)
  have "\<not> startsWith (c # h @ (d # p) @ rest) (d # p)"
    using Cons.prems by (intro startsWith_other_head) auto
  moreover have "indexOf (h @ (d # p) @ rest) (d # p) = int (length h)"
    using Cons by simp
  ultimately show ?case by (simp add: Let_def)
qed

lemma slice_take: "k \<le> length b \<Longrightarrow> slice b 0 (int k) = take k b"
  by (simp add: slice_def Let_def)

lemma slice_drop: "k \<le> length b \<Longrightarrow> slice b (int k) (int (length b)) = drop k b"
  by (simp add: slice_def Let_def)

lemma prefix_split:
  assumes "b @ x = u @ y" and "length u \<le> length b"
  shows "b = u @ drop (length u) b" and "drop (length u) b @ x = y"
proof -
  have "take (length u) (b @ x) = u" using assms(1) by simp
  then have t: "take (length u) b = u" using assms(2) by simp
  then show "b = u @ drop (length u) b" by (metis append_take_drop_id)
  then have "u @ drop (length u) b @ x = u @ y" using assms(1) by (metis append_assoc)
  then show "drop (length u) b @ x = y" by simp
qed


lemma startsWith_take: "startsWith (take j xs) p \<Longrightarrow> startsWith xs p"
proof -
  assume s: "startsWith (take j xs) p"
  then have "length (take (length p) (take j xs)) = length p" by (simp add: startsWith_def)
  then have "length p \<le> j" by simp
  then have "take (length p) (take j xs) = take (length p) xs" by (simp add: min_def)
  then show ?thesis using s by (simp add: startsWith_def)
qed

lemma indexOf_prefix:
  "indexOf xs p = int k \<Longrightarrow> p \<noteq> [] \<Longrightarrow> j < k + length p \<Longrightarrow> indexOf (take j xs) p = - 1"
proof (induction xs arbitrary: k j)
  case Nil
  then show ?case by simp
next
  case (Cons c cs)
  show ?case
  proof (cases "startsWith (c # cs) p")
    case True
    then have "k = 0" using Cons.prems(1) by simp
    then have "length (take j (c # cs)) < length p" using Cons.prems(3) by simp
    then show ?thesis by (rule indexOf_short)
  next
    case False
    then have r: "0 \<le> indexOf cs p" "int k = indexOf cs p + 1"
      using Cons.prems(1) by (auto simp: Let_def split: if_splits)
    define k' where "k' = nat (indexOf cs p)"
    have k': "indexOf cs p = int k'" "k = Suc k'"
      using r by (simp_all add: k'_def)
    show ?thesis
    proof (cases j)
      case 0
      then show ?thesis using Cons.prems(2) by simp
    next
      case (Suc j')
      have "\<not> startsWith (take j (c # cs)) p" using False startsWith_take by blast
      moreover have "indexOf (take j' cs) p = - 1"
        using Cons.IH [OF k'(1) Cons.prems(2), of j'] Cons.prems(3) k'(2) Suc by simp
      ultimately show ?thesis using Suc by (simp add: Let_def)
    qed
  qed
qed

lemma indexOf_skip:
  "d \<notin> set l \<Longrightarrow> 0 \<le> indexOf xs (d # p) \<Longrightarrow>
   indexOf (l @ xs) (d # p) = int (length l) + indexOf xs (d # p)"
proof (induction l)
  case Nil
  then show ?case by simp
next
  case (Cons c l)
  have "\<not> startsWith (c # l @ xs) (d # p)"
    using Cons.prems by (intro startsWith_other_head) auto
  then show ?case using Cons by (simp add: Let_def)
qed

lemma join_crlf_hd: "m \<noteq> [] \<Longrightarrow> \<exists>t. join_crlf (m # ls) = hd m # t"
  by (cases m; cases ls) simp_all

lemma indexOf_header_block:
  assumes "ls \<noteq> []" and "\<forall>l \<in> set ls. l \<noteq> [] \<and> CR \<notin> set l"
  shows "indexOf (join_crlf ls @ [CR, LF, CR, LF] @ rest) [CR, LF, CR, LF] = int (length (join_crlf ls))"
  using assms
proof (induction ls rule: join_crlf.induct)
  case 1
  then show ?case by simp
next
  case (2 l)
  then show ?case using indexOf_separator [of CR l "[LF, CR, LF]" rest] by simp
next
  case (3 l m ls)
  let ?X = "join_crlf (m # ls) @ [CR, LF, CR, LF] @ rest"
  have ih: "indexOf ?X [CR, LF, CR, LF] = int (length (join_crlf (m # ls)))"
    using 3 by simp
  obtain t where t: "join_crlf (m # ls) = hd m # t" using join_crlf_hd [of m ls] 3 by auto
  have hd: "hd m \<noteq> CR" using 3 by (cases m) auto
  have X: "?X = hd m # (t @ [CR, LF, CR, LF] @ rest)" using t by simp
  have 1: "\<not> startsWith (CR # LF # ?X) [CR, LF, CR, LF]"
    unfolding X using hd by (simp add: startsWith_def)
  have 2: "\<not> startsWith (LF # ?X) [CR, LF, CR, LF]"
    by (simp add: startsWith_def CR_def LF_def)
  have i: "indexOf (CR # LF # ?X) [CR, LF, CR, LF] = 2 + int (length (join_crlf (m # ls)))"
    using 1 2 ih by (simp add: Let_def del: join_crlf.simps)
  have "CR \<notin> set l" using 3 by simp
  then have "indexOf (l @ CR # LF # ?X) [CR, LF, CR, LF]
        = int (length l) + indexOf (CR # LF # ?X) [CR, LF, CR, LF]"
    using i by (intro indexOf_skip) simp_all
  then show ?case using i by simp
qed

lemma isAscii_CR_LF [simp]: "isAscii CR" "isAscii LF"
  by (simp_all add: isAscii_def CR_def LF_def)

lemma join_crlf_ascii:
  "\<forall>l \<in> set ls. list_all isAscii l \<Longrightarrow> list_all isAscii (join_crlf ls)"
  by (induction ls rule: join_crlf.induct) simp_all

lemma foldl_other_headers:
  "\<forall>l \<in> set bs. \<not> startsWith l pre \<Longrightarrow>
   foldl (\<lambda>n l. if startsWith l pre then g l else n) n bs = n"
  by (induction bs arbitrary: n) simp_all

lemma parseHeaders_lines:
  assumes "\<forall>l \<in> set (before @ after). LF \<notin> set l \<and> \<not> startsWith l ''Content-Length: ''"
    and ds: "ds \<noteq> []" "list_all isDigit ds"
  shows "parseHeaders (join_crlf (before @ [''Content-Length: '' @ ds] @ after)) old
         = Num (int (decimalValue ds))"
proof -
  define pre where "pre = ''Content-Length: ''"
  define g where "g = (\<lambda>l. parseInt (substringFrom l 16))"
  define step where "step = (\<lambda>n l. if startsWith l pre then g l else n)"
  have pre: "LF \<notin> set pre" "length pre = 16" by (simp_all add: pre_def LF_def)
  have ba: "\<forall>l \<in> set before. LF \<notin> set l" "\<forall>l \<in> set after. LF \<notin> set l"
    "\<forall>l \<in> set before. \<not> startsWith l pre" "\<forall>l \<in> set after. \<not> startsWith l pre"
    using assms(1) unfolding pre_def [symmetric] by auto
  have "LF \<notin> set ds" using ds(2) isDigit_cases by (auto simp: list_all_iff)
  then have "LF \<notin> set (pre @ ds)" using pre(1) by simp
  then have "\<forall>l \<in> set (before @ [pre @ ds] @ after). LF \<notin> set l"
    using ba(1,2) by auto
  then have s: "split_crlf (join_crlf (before @ [pre @ ds] @ after))
                  = before @ [pre @ ds] @ after"
    by (intro split_crlf_join_crlf) simp_all
  have w: "startsWith (pre @ ds) pre" by (rule startsWith_append)
  have d: "substringFrom (pre @ ds) 16 = ds"
    unfolding substringFrom_def using pre(2) by (metis append_eq_conv_conj nat_numeral)
  have b: "foldl step old before = old" and a: "\<And>x. foldl step x after = x"
    unfolding step_def using ba(3,4) by (simp_all add: foldl_other_headers)
  have "parseHeaders (join_crlf (before @ [pre @ ds] @ after)) old =
      foldl step old (before @ [pre @ ds] @ after)"
    unfolding parseHeaders_def pre_def [symmetric] s step_def g_def ..
  also have "\<dots> = step old (pre @ ds)"
    unfolding foldl_append a b by simp
  also have "\<dots> = Num (int (decimalValue ds))"
    unfolding step_def g_def d using w parseInt_decimal [OF ds] by (simp del: startsWith_append)
  finally show ?thesis unfolding pre_def .
qed


lemma contentLength_line:
  assumes "list_all isDigit ds" and "c \<in> set (''Content-Length: '' @ ds)"
  shows "c \<noteq> CR \<and> c \<noteq> LF \<and> isAscii c"
proof -
  have "\<forall>c \<in> set ''Content-Length: ''. c \<noteq> CR \<and> c \<noteq> LF \<and> isAscii c" by code_simp
  moreover have "c \<in> set ''Content-Length: '' \<or> c \<in> set ds"
    using assms(2) by (simp only: set_append Un_iff)
  moreover have "c \<in> set ds \<Longrightarrow> isDigit c" using assms(1) by (simp add: list_all_iff)
  ultimately show ?thesis using isDigit_cases by blast
qed

lemma headerLines_plain:
  assumes "wellFormed P f m"
  shows "headerLines f \<noteq> []"
    and "\<forall>l \<in> set (headerLines f). l \<noteq> [] \<and> CR \<notin> set l \<and> LF \<notin> set l \<and> list_all isAscii l"
    and "parseHeaders (join_crlf (headerLines f)) old = Num (int (length (payload f)))"
proof -
  define cl where "cl = ''Content-Length: '' @ lengthDigits f"
  have hl: "headerLines f = headersBefore f @ [cl] @ headersAfter f"
    by (simp add: headerLines_def cl_def)
  have o: "\<forall>l \<in> set (headersBefore f @ headersAfter f). otherHeader l"
    using assms by (auto simp: wellFormed_def list_all_iff)
  have ds: "lengthDigits f \<noteq> []" "list_all isDigit (lengthDigits f)"
    "decimalValue (lengthDigits f) = length (payload f)"
    using assms by (simp_all add: wellFormed_def)
  have c: "cl \<noteq> [] \<and> CR \<notin> set cl \<and> LF \<notin> set cl \<and> list_all isAscii cl"
    unfolding cl_def list_all_iff using contentLength_line [OF ds(2)] by blast
  show "headerLines f \<noteq> []" using hl by simp
  show "\<forall>l \<in> set (headerLines f). l \<noteq> [] \<and> CR \<notin> set l \<and> LF \<notin> set l \<and> list_all isAscii l"
  proof
    fix l
    assume "l \<in> set (headerLines f)"
    then consider "l = cl" | "l \<in> set (headersBefore f @ headersAfter f)" using hl by auto
    then show "l \<noteq> [] \<and> CR \<notin> set l \<and> LF \<notin> set l \<and> list_all isAscii l"
    proof cases
      case 1
      then show ?thesis using c by simp
    next
      case 2
      then have "otherHeader l" using o by blast
      then show ?thesis unfolding otherHeader_def by blast
    qed
  qed
  have "\<forall>l \<in> set (headersBefore f @ headersAfter f). LF \<notin> set l \<and> \<not> startsWith l ''Content-Length: ''"
  proof
    fix l
    assume "l \<in> set (headersBefore f @ headersAfter f)"
    then have "otherHeader l" using o by blast
    then show "LF \<notin> set l \<and> \<not> startsWith l ''Content-Length: ''"
      unfolding otherHeader_def by blast
  qed
  then have "parseHeaders (join_crlf (headersBefore f @ [''Content-Length: '' @ lengthDigits f]
                 @ headersAfter f)) old = Num (int (decimalValue (lengthDigits f)))"
    using ds(1,2) by (rule parseHeaders_lines)
  then show "parseHeaders (join_crlf (headerLines f)) old = Num (int (length (payload f)))"
    unfolding hl cl_def ds(3) .
qed

lemma readContent_Num:
  "readContent P \<lparr>buffer = b, contentLength = Num (int n)\<rparr> =
     (if length b < n then (Pending, \<lparr>buffer = b, contentLength = Num (int n)\<rparr>)
      else (case jsonParse P (utf8Decode P (take n b)) of
              None \<Rightarrow> (Reject ParseFailure, \<lparr>buffer = drop n b, contentLength = Num (- 1)\<rparr>)
            | Some message \<Rightarrow>
                if isNullish P message
                then (Reject ParseFailure, \<lparr>buffer = drop n b, contentLength = Num (- 1)\<rparr>)
                else (Resolve message, \<lparr>buffer = drop n b, contentLength = Num (- 1)\<rparr>)))"
  by (simp add: readContent_def sliceTo_def sliceFrom_def slice_take slice_drop Let_def)

lemma tryParse_content:
  "tryParse P \<lparr>buffer = b, contentLength = Num (int n)\<rparr> =
     readContent P \<lparr>buffer = b, contentLength = Num (int n)\<rparr>"
  by (simp add: tryParse_def lessThan0_def)

lemma tryParse_header:
  assumes dec: "\<forall>h. list_all isAscii h \<longrightarrow> utf8Decode P h = h"
    and wf: "wellFormed P f m"
    and pre: "b @ rest = frameBytes f @ later"
  shows "tryParse P \<lparr>buffer = b, contentLength = Num (- 1)\<rparr> =
     (if length b < headerLength f then (Pending, \<lparr>buffer = b, contentLength = Num (- 1)\<rparr>)
      else readContent P \<lparr>buffer = drop (headerLength f) b,
                          contentLength = Num (int (length (payload f)))\<rparr>)"
proof -
  define H where "H = join_crlf (headerLines f)"
  define sep where "sep = [CR, LF, CR, LF]"
  have sep: "length sep = 4" "sep \<noteq> []" by (simp_all add: sep_def)
  note hp = headerLines_plain [OF wf]
  have hlen: "headerLength f = length H + 4" by (simp add: headerLength_def H_def)
  have fb: "frameBytes f @ later = H @ sep @ payload f @ later"
    by (simp add: frameBytes_def H_def sep_def)
  have idx: "indexOf (H @ sep @ x) sep = int (length H)" for x
    unfolding H_def sep_def using hp(1,2) by (intro indexOf_header_block) auto
  show ?thesis
  proof (cases "length b < headerLength f")
    case True
    have "b = take (length b) (b @ rest)" by simp
    then have b: "b = take (length b) (H @ sep @ payload f @ later)" using pre fb by simp
    have "indexOf (take (length b) (H @ sep @ payload f @ later)) sep = - 1"
      using idx [of "payload f @ later"] sep True hlen by (intro indexOf_prefix) simp_all
    then have "indexOf b sep = - 1" using b by simp
    then show ?thesis using True by (simp add: tryParse_def lessThan0_def Let_def sep_def)
  next
    case False
    then have le: "length (H @ sep) \<le> length b" using hlen sep by simp
    define b1 where "b1 = drop (length (H @ sep)) b"
    have "b @ rest = (H @ sep) @ payload f @ later" using pre fb by simp
    then have b: "b = (H @ sep) @ b1" using prefix_split(1) [OF _ le] by (simp add: b1_def)
    have b1: "drop (headerLength f) b = b1" using hlen sep by (simp add: b1_def)
    have i: "indexOf b [CR, LF, CR, LF] = int (length H)"
      using idx [of b1] b by (simp add: sep_def)
    have t: "slice b 0 (int (length H)) = H"
      using slice_take [of "length H" b] b by simp
    have "list_all isAscii H" unfolding H_def using hp(2) by (intro join_crlf_ascii) blast
    then have u: "utf8Decode P H = H" using dec by blast
    have "slice b (int (length H + 4)) (int (length b)) = drop (length H + 4) b"
      using le sep by (intro slice_drop) simp
    then have d: "slice b (int (length H) + 4) (int (length b)) = b1"
      using b1 hlen by simp
    have l: "lessThan0 (Num (- 1))" "\<not> lessThan0 (Num (int (length (payload f))))"
      "\<not> int (length H) < 0"
      by (simp_all add: lessThan0_def)
    have p: "parseHeaders H (Num (- 1)) = Num (int (length (payload f)))"
      unfolding H_def by (rule hp(3))
    have "tryParse P \<lparr>buffer = b, contentLength = Num (- 1)\<rparr> =
        readContent P \<lparr>buffer = b1, contentLength = Num (int (length (payload f)))\<rparr>"
      unfolding tryParse_def Let_def
      by (simp only: reader.simps reader.update_convs i t u d l p if_True if_False)
    then show ?thesis using False b1 by simp
  qed
qed

lemma readContent_frame:
  assumes wf: "wellFormed P f m"
    and pre: "b @ rest = frameBytes f @ later"
    and k: "headerLength f \<le> length b"
  shows "readContent P \<lparr>buffer = drop (headerLength f) b,
                         contentLength = Num (int (length (payload f)))\<rparr> =
     (if length b < length (frameBytes f)
      then (Pending, \<lparr>buffer = drop (headerLength f) b,
                      contentLength = Num (int (length (payload f)))\<rparr>)
      else (Resolve m, \<lparr>buffer = drop (length (frameBytes f)) b, contentLength = Num (- 1)\<rparr>))"
proof -
  define n where "n = length (payload f)"
  define k where "k = headerLength f"
  define b1 where "b1 = drop k b"
  have flen: "length (frameBytes f) = k + n"
    by (simp add: frameBytes_def headerLength_def k_def n_def)
  have parse: "jsonParse P (utf8Decode P (payload f)) = Some m" "\<not> isNullish P m"
    using wf by (simp_all add: wellFormed_def)
  have l1: "length b1 = length b - k" by (simp add: b1_def)
  show ?thesis
  proof (cases "length b < length (frameBytes f)")
    case True
    then have "length b1 < n" using l1 flen k by (simp add: k_def)
    then show ?thesis
      using True unfolding k_def [symmetric] n_def [symmetric] b1_def [symmetric] readContent_Num
      by simp
  next
    case False
    then have le: "length (frameBytes f) \<le> length b" by simp
    then have n1: "\<not> length b1 < n" using l1 flen by simp
    have "b = frameBytes f @ drop (length (frameBytes f)) b"
      using prefix_split(1) [OF pre le] .
    then have "take (k + n) b = frameBytes f"
      using flen by (metis append_eq_conv_conj)
    then have "drop k (take (k + n) b) = payload f"
      by (simp add: frameBytes_def headerLength_def k_def)
    moreover have "drop k (take (k + n) b) = take n (drop k b)"
      by (simp add: drop_take)
    ultimately have t: "take n b1 = payload f" by (simp add: b1_def)
    have d: "drop n b1 = drop (length (frameBytes f)) b"
      unfolding b1_def flen by (simp add: add.commute)
    show ?thesis
      using False n1 parse
      unfolding k_def [symmetric] n_def [symmetric] b1_def [symmetric] readContent_Num t d
      by simp
  qed
qed

lemma tryParse_reading:
  assumes dec: "\<forall>h. list_all isAscii h \<longrightarrow> utf8Decode P h = h"
    and wf: "wellFormed P f m"
    and g: "length g < length (frameBytes f)"
    and pre: "(g @ chunk) @ rest = frameBytes f @ later"
  shows "tryParse P ((reading f g)\<lparr>buffer := buffer (reading f g) @ chunk\<rparr>) =
     (if length (g @ chunk) < length (frameBytes f) then (Pending, reading f (g @ chunk))
      else (Resolve m, \<lparr>buffer = drop (length (frameBytes f)) (g @ chunk),
                         contentLength = Num (- 1)\<rparr>))"
proof -
  define b where "b = g @ chunk"
  define n where "n = length (payload f)"
  define k where "k = headerLength f"
  have pre': "b @ rest = frameBytes f @ later" using pre by (simp add: b_def)
  have gb: "length g \<le> length b" by (simp add: b_def)
  have flen: "length (frameBytes f) = k + n"
    by (simp add: frameBytes_def headerLength_def k_def n_def)
  note content = readContent_frame [OF wf pre', folded k_def n_def]
  have goal: "tryParse P ((reading f g)\<lparr>buffer := buffer (reading f g) @ chunk\<rparr>) =
     (if length b < length (frameBytes f) then (Pending, reading f b)
      else (Resolve m, \<lparr>buffer = drop (length (frameBytes f)) b, contentLength = Num (- 1)\<rparr>))"
  proof (cases "length g < k")
    case True
    then have r: "(reading f g)\<lparr>buffer := buffer (reading f g) @ chunk\<rparr>
        = \<lparr>buffer = b, contentLength = Num (- 1)\<rparr>"
      by (simp add: reading_def k_def b_def)
    note h = tryParse_header [OF dec wf pre', folded k_def n_def]
    show ?thesis
    proof (cases "length b < k")
      case True
      then have "reading f b = \<lparr>buffer = b, contentLength = Num (- 1)\<rparr>"
        by (simp add: reading_def k_def)
      then show ?thesis unfolding r h using True flen by simp
    next
      case False
      then have kb: "k \<le> length b" by simp
      have "reading f b = \<lparr>buffer = drop k b, contentLength = Num (int n)\<rparr>"
        using False by (simp add: reading_def k_def n_def)
      then show ?thesis unfolding r h content [OF kb] using False by simp
    qed
  next
    case False
    then have kb: "k \<le> length b" using gb by simp
    have "drop k g @ chunk = drop k b" using False by (simp add: b_def)
    then have r: "(reading f g)\<lparr>buffer := buffer (reading f g) @ chunk\<rparr>
        = \<lparr>buffer = drop k b, contentLength = Num (int n)\<rparr>"
      using False by (simp add: reading_def k_def [symmetric] n_def [symmetric])
    have "reading f b = \<lparr>buffer = drop k b, contentLength = Num (int n)\<rparr>"
      using kb by (simp add: reading_def k_def n_def)
    then show ?thesis unfolding r tryParse_content content [OF kb] by simp
  qed
  show ?thesis using goal unfolding b_def .
qed


lemma pending_idleSession [simp]: "\<not> pending (idleSession ms c b)"
  by (cases "take c ms = []") (simp_all add: pending_def idleSession_def last_map)

lemma pending_pendingSession [simp]: "pending (pendingSession fs ms j g)"
  by (simp add: pending_def pendingSession_def)

lemma rejected_idleSession [simp]: "\<not> rejected (idleSession ms c b)"
  by (cases "take c ms = []") (simp_all add: rejected_def idleSession_def last_map)

lemma tryParseFor_pendingSession:
  assumes dec: "\<forall>h. list_all isAscii h \<longrightarrow> utf8Decode P h = h"
    and wf: "list_all2 (wellFormed P) fs ms"
    and j: "j < length fs"
    and g: "length g < length (frameBytes (fs ! j))"
    and pre: "(g @ chunk) @ rest = frameBytes (fs ! j) @ later"
  shows "tryParseFor P j
           ((pendingSession fs ms j g)
              \<lparr>messageReader := (reading (fs ! j) g)\<lparr>buffer := buffer (reading (fs ! j) g) @ chunk\<rparr>\<rparr>)
         = (if length (g @ chunk) < length (frameBytes (fs ! j)) then pendingSession fs ms j (g @ chunk)
            else idleSession ms (Suc j) (drop (length (frameBytes (fs ! j))) (g @ chunk)))"
proof -
  have len: "length ms = length fs" using wf by (simp add: list_all2_lengthD)
  have w: "wellFormed P (fs ! j) (ms ! j)" using wf j by (simp add: list_all2_nthD)
  note t = tryParse_reading [OF dec w g pre]
  define ps :: "(js_error + 'a) option list" where "ps = map (\<lambda>m. Some (Inr m)) (take j ms)"
  have tk: "map (\<lambda>m. Some (Inr m)) (take (Suc j) ms) = ps @ [Some (Inr (ms ! j))]"
    using j len by (simp add: take_Suc_conv_app_nth ps_def)
  have lj: "length ps = j" using j len by (simp add: ps_def)
  show ?thesis
  proof (cases "length (g @ chunk) < length (frameBytes (fs ! j))")
    case True
    then show ?thesis
      unfolding tryParseFor_def pendingSession_def using t by simp
  next
    case False
    then show ?thesis
      unfolding tryParseFor_def pendingSession_def idleSession_def tk ps_def [symmetric]
      using t lj by (simp add: settle_def nth_append list_update_append)
  qed
qed

lemma reading_Nil: "reading f [] = \<lparr>buffer = [], contentLength = Num (- 1)\<rparr>"
  by (simp add: reading_def headerLength_def)

lemma frameBytes_not_Nil: "0 < length (frameBytes f)"
  by (simp add: frameBytes_def)

lemma readMessage_idleSession:
  assumes dec: "\<forall>h. list_all isAscii h \<longrightarrow> utf8Decode P h = h"
    and wf: "list_all2 (wellFormed P) fs ms"
    and c: "c < length fs"
    and pre: "b @ rest = frameBytes (fs ! c) @ later"
  shows "readMessage P (idleSession ms c b)
         = (if length b < length (frameBytes (fs ! c)) then pendingSession fs ms c b
            else idleSession ms (Suc c) (drop (length (frameBytes (fs ! c))) b))"
proof -
  have len: "length ms = length fs" using wf by (simp add: list_all2_lengthD)
  have "(idleSession ms c b)
          \<lparr>dataListeners := dataListeners (idleSession ms c b) @ [c],
             endListeners := endListeners (idleSession ms c b) @ [c],
             errorListeners := errorListeners (idleSession ms c b) @ [c],
             promises := promises (idleSession ms c b) @ [None]\<rparr>
        = (pendingSession fs ms c [])
            \<lparr>messageReader := (reading (fs ! c) [])\<lparr>buffer := buffer (reading (fs ! c) []) @ b\<rparr>\<rparr>"
    by (simp add: idleSession_def pendingSession_def reading_Nil)
  moreover have "length (promises (idleSession ms c b)) = c"
    using c len by (simp add: idleSession_def)
  ultimately have "readMessage P (idleSession ms c b) =
      tryParseFor P c ((pendingSession fs ms c [])
            \<lparr>messageReader := (reading (fs ! c) [])\<lparr>buffer := buffer (reading (fs ! c) []) @ b\<rparr>\<rparr>)"
    by (simp add: readMessage_def Let_def)
  moreover have "length ([] :: string) < length (frameBytes (fs ! c))"
    using frameBytes_not_Nil [of "fs ! c"] by simp
  moreover have "([] @ b) @ rest = frameBytes (fs ! c) @ later" using pre by simp
  ultimately show ?thesis
    using tryParseFor_pendingSession [OF dec wf c, of "[]" b rest later] by simp
qed

lemma emitData_pendingSession:
  assumes dec: "\<forall>h. list_all isAscii h \<longrightarrow> utf8Decode P h = h"
    and wf: "list_all2 (wellFormed P) fs ms"
    and j: "j < length fs"
    and g: "length g < length (frameBytes (fs ! j))"
    and pre: "(g @ chunk) @ rest = frameBytes (fs ! j) @ later"
  shows "emitData P chunk (pendingSession fs ms j g)
         = (if length (g @ chunk) < length (frameBytes (fs ! j)) then pendingSession fs ms j (g @ chunk)
            else idleSession ms (Suc j) (drop (length (frameBytes (fs ! j))) (g @ chunk)))"
proof -
  have "emitData P chunk (pendingSession fs ms j g) =
      tryParseFor P j
           ((pendingSession fs ms j g)
              \<lparr>messageReader := (reading (fs ! j) g)\<lparr>buffer := buffer (reading (fs ! j) g) @ chunk\<rparr>\<rparr>)"
    by (simp add: emitData_def onData_def pendingSession_def)
  then show ?thesis using tryParseFor_pendingSession [OF dec wf j g pre] by simp
qed

lemma orderly_append:
  "orderly P (es @ es') s = (orderly P es s \<and> orderly P es' (run P es s))"
  by (induction es arbitrary: s) (simp_all add: run_def)

lemma chunksOf_append: "chunksOf (es @ es') = chunksOf es @ chunksOf es'"
  by (induction es rule: chunksOf.induct) simp_all

lemma frames_split:
  "c < length fs \<Longrightarrow>
   concat (map frameBytes fs) =
     concat (map frameBytes (take c fs)) @ frameBytes (fs ! c) @
     concat (map frameBytes (drop (Suc c) fs))"
proof -
  assume "c < length fs"
  then have "fs = take c fs @ fs ! c # drop (Suc c) fs" by (rule id_take_nth_drop)
  then have "concat (map frameBytes fs) =
      concat (map frameBytes (take c fs @ fs ! c # drop (Suc c) fs))" by simp
  then show ?thesis by simp
qed

lemma frames_take_Suc:
  "c < length fs \<Longrightarrow>
   concat (map frameBytes (take (Suc c) fs)) =
     concat (map frameBytes (take c fs)) @ frameBytes (fs ! c)"
  by (simp add: take_Suc_conv_app_nth)

text \<open>
  The sessions of an orderly run on a stream of well-formed frames: after each event,
  either no call is pending, each call so far has returned the message of its frame and
  the buffer holds the bytes that have arrived after these frames, or the last call is
  pending and the reader holds the bytes of its frame that have arrived.
\<close>

lemma run_orderly:
  assumes dec: "\<forall>h. list_all isAscii h \<longrightarrow> utf8Decode P h = h"
    and wf: "list_all2 (wellFormed P) fs ms"
  shows "orderly P es newSession \<Longrightarrow> End \<notin> set es \<and> Error \<notin> set es \<Longrightarrow>
         concat (chunksOf es) @ rest = concat (map frameBytes fs) \<Longrightarrow>
         callsOf es \<le> length fs \<Longrightarrow>
         (\<exists>b. run P es newSession = idleSession ms (callsOf es) b \<and>
               concat (map frameBytes (take (callsOf es) fs)) @ b = concat (chunksOf es))
         \<or> (\<exists>j g. callsOf es = Suc j \<and> run P es newSession = pendingSession fs ms j g \<and>
               concat (map frameBytes (take j fs)) @ g = concat (chunksOf es) \<and>
               length g < length (frameBytes (fs ! j)))"
proof (induction es arbitrary: rest rule: rev_induct)
  case Nil
  have "run P [] newSession = idleSession ms 0 []"
    by (simp add: run_def newSession_def idleSession_def newReader_def)
  then show ?case by (simp add: callsOf_def)
next
  case (snoc e es)
  have ord: "orderly P es newSession"
    and guard: "if e = Call then \<not> pending (run P es newSession) else pending (run P es newSession)"
    using snoc.prems(1) by (simp_all add: orderly_append)
  have noend: "End \<notin> set es \<and> Error \<notin> set es" "e \<noteq> End" "e \<noteq> Error"
    using snoc.prems(2) by auto
  have data: "concat (chunksOf es) @ (concat (chunksOf [e]) @ rest) = concat (map frameBytes fs)"
    using snoc.prems(3) by (simp add: chunksOf_append)
  have calls: "callsOf es \<le> length fs" using snoc.prems(4) by (simp add: callsOf_def)
  note ih = snoc.IH [OF ord noend(1) data calls]
  have r: "run P (es @ [e]) newSession = step P e (run P es newSession)"
    by (simp add: run_def)
  show ?case
  proof (cases e)
    case Call
    then have "\<not> pending (run P es newSession)" using guard by simp
    then obtain b where b: "run P es newSession = idleSession ms (callsOf es) b"
      and d: "concat (map frameBytes (take (callsOf es) fs)) @ b = concat (chunksOf es)"
      using ih by auto
    define c where "c = callsOf es"
    have c': "callsOf (es @ [e]) = Suc c" and ch: "chunksOf (es @ [e]) = chunksOf es"
      using Call by (simp_all add: callsOf_def c_def chunksOf_append)
    have c: "c < length fs" using snoc.prems(4) c' by simp
    have "concat (map frameBytes (take c fs)) @ b @ rest = concat (chunksOf es) @ rest"
      using d by (simp add: c_def)
    also have "\<dots> = concat (map frameBytes fs)" using data Call by simp
    also have "\<dots> = concat (map frameBytes (take c fs)) @ frameBytes (fs ! c) @
          concat (map frameBytes (drop (Suc c) fs))"
      by (rule frames_split [OF c])
    finally have pre: "b @ rest = frameBytes (fs ! c) @ concat (map frameBytes (drop (Suc c) fs))"
      by simp
    note s = readMessage_idleSession [OF dec wf c pre]
    show ?thesis
    proof (cases "length b < length (frameBytes (fs ! c))")
      case True
      then have "run P (es @ [e]) newSession = pendingSession fs ms c b"
        using r Call b s by (simp add: c_def)
      then show ?thesis using c' ch d True by (auto simp: c_def)
    next
      case False
      then have le: "length (frameBytes (fs ! c)) \<le> length b" by simp
      have "b = frameBytes (fs ! c) @ drop (length (frameBytes (fs ! c))) b"
        using prefix_split(1) [OF pre le] .
      then have "concat (map frameBytes (take (Suc c) fs)) @ drop (length (frameBytes (fs ! c))) b
          = concat (map frameBytes (take c fs)) @ b"
        unfolding frames_take_Suc [OF c] by simp
      moreover have "run P (es @ [e]) newSession =
          idleSession ms (Suc c) (drop (length (frameBytes (fs ! c))) b)"
        using r Call b s False by (simp add: c_def)
      ultimately show ?thesis using c' ch d by (auto simp: c_def)
    qed
  next
    case (Data chunk)
    then have "pending (run P es newSession)" using guard by simp
    then obtain j g where cj: "callsOf es = Suc j"
      and p: "run P es newSession = pendingSession fs ms j g"
      and d: "concat (map frameBytes (take j fs)) @ g = concat (chunksOf es)"
      and g: "length g < length (frameBytes (fs ! j))"
      using ih by auto
    have c': "callsOf (es @ [e]) = Suc j"
      and ch: "concat (chunksOf (es @ [e])) = concat (chunksOf es) @ chunk"
      using Data cj by (simp_all add: callsOf_def chunksOf_append)
    have j: "j < length fs" using calls cj by simp
    have "concat (map frameBytes (take j fs)) @ (g @ chunk) @ rest
            = concat (chunksOf es) @ chunk @ rest"
      using d by (metis append_assoc)
    also have "\<dots> = concat (map frameBytes fs)" using data Data by simp
    also have "\<dots> = concat (map frameBytes (take j fs)) @ frameBytes (fs ! j) @
          concat (map frameBytes (drop (Suc j) fs))"
      by (rule frames_split [OF j])
    finally have pre: "(g @ chunk) @ rest =
        frameBytes (fs ! j) @ concat (map frameBytes (drop (Suc j) fs))"
      by simp
    note s = emitData_pendingSession [OF dec wf j g pre]
    show ?thesis
    proof (cases "length (g @ chunk) < length (frameBytes (fs ! j))")
      case True
      then have "run P (es @ [e]) newSession = pendingSession fs ms j (g @ chunk)"
        using r Data p s by simp
      then show ?thesis using c' ch d True by auto
    next
      case False
      then have le: "length (frameBytes (fs ! j)) \<le> length (g @ chunk)" by simp
      have "g @ chunk = frameBytes (fs ! j) @ drop (length (frameBytes (fs ! j))) (g @ chunk)"
        using prefix_split(1) [OF pre le] .
      then have "concat (map frameBytes (take (Suc j) fs)) @
            drop (length (frameBytes (fs ! j))) (g @ chunk)
          = concat (map frameBytes (take j fs)) @ g @ chunk"
        unfolding frames_take_Suc [OF j] by (metis append_assoc)
      moreover have "run P (es @ [e]) newSession =
          idleSession ms (Suc j) (drop (length (frameBytes (fs ! j))) (g @ chunk))"
        using r Data p s False by simp
      ultimately show ?thesis using c' ch d by (auto simp del: drop_append)
    qed
  next
    case End
    then show ?thesis using noend(2) by simp
  next
    case Error
    then show ?thesis using noend(3) by simp
  qed
qed


lemma run_pendingSession:
  assumes j: "j < length fs"
    and d: "concat (map frameBytes (take j fs)) @ g @ rest = concat (map frameBytes fs)"
  shows "length (frameBytes (fs ! j)) \<le> length g + length rest"
proof -
  have "concat (map frameBytes (take j fs)) @ g @ rest =
        concat (map frameBytes (take j fs)) @ frameBytes (fs ! j) @
        concat (map frameBytes (drop (Suc j) fs))"
    using d frames_split [OF j] by simp
  then have "g @ rest = frameBytes (fs ! j) @ concat (map frameBytes (drop (Suc j) fs))"
    by simp
  then have "length (g @ rest) =
      length (frameBytes (fs ! j) @ concat (map frameBytes (drop (Suc j) fs)))"
    by simp
  then show ?thesis by simp
qed

lemma run_complete:
  assumes dec: "\<forall>h. list_all isAscii h \<longrightarrow> utf8Decode P h = h"
    and wf: "list_all2 (wellFormed P) fs ms"
    and stream: "concat (chunksOf es) = concat (map frameBytes fs)"
    and ord: "orderly P es newSession"
    and noend: "End \<notin> set es \<and> Error \<notin> set es"
    and calls: "callsOf es = length fs"
  shows "run P es newSession = idleSession ms (length fs) []"
proof -
  have s: "concat (chunksOf es) @ [] = concat (map frameBytes fs)" using stream by simp
  have c: "callsOf es \<le> length fs" using calls by simp
  note inv = run_orderly [OF dec wf ord noend s c]
  have "\<not> (\<exists>j g. callsOf es = Suc j \<and> run P es newSession = pendingSession fs ms j g \<and>
               concat (map frameBytes (take j fs)) @ g = concat (chunksOf es) \<and>
               length g < length (frameBytes (fs ! j)))"
  proof
    assume "\<exists>j g. callsOf es = Suc j \<and> run P es newSession = pendingSession fs ms j g \<and>
               concat (map frameBytes (take j fs)) @ g = concat (chunksOf es) \<and>
               length g < length (frameBytes (fs ! j))"
    then obtain j g where j: "callsOf es = Suc j"
      and d: "concat (map frameBytes (take j fs)) @ g = concat (chunksOf es)"
      and g: "length g < length (frameBytes (fs ! j))"
      by blast
    have jl: "j < length fs" using j calls by simp
    have "concat (map frameBytes (take j fs)) @ g @ [] = concat (map frameBytes fs)"
      using d stream by simp
    then show False using run_pendingSession [OF jl, of g "[]"] g by simp
  qed
  then obtain b where r: "run P es newSession = idleSession ms (callsOf es) b"
    and d: "concat (map frameBytes (take (callsOf es) fs)) @ b = concat (chunksOf es)"
    using inv by blast
  have "b = []" using d stream calls by simp
  then show ?thesis using r calls by simp
qed

lemma end_of_stream:
  assumes "length ms = n"
  shows "promises (emitEnd (readMessage P (idleSession ms n [])))
         = map (\<lambda>m. Some (Inr m)) ms @ [Some (Inl ConnectionClosed)]"
proof -
  define ps :: "(js_error + 'a) option list" where "ps = map (\<lambda>m. Some (Inr m)) ms"
  have l: "length ps = n" using assms by (simp add: ps_def)
  have i: "idleSession ms n [] =
      \<lparr>messageReader = \<lparr>buffer = [], contentLength = Num (- 1)\<rparr>,
       dataListeners = [], endListeners = [], errorListeners = [], promises = ps\<rparr>"
    using assms by (simp add: idleSession_def ps_def)
  have t: "tryParse P \<lparr>buffer = [], contentLength = Num (- 1)\<rparr>
             = (Pending, \<lparr>buffer = [], contentLength = Num (- 1)\<rparr>)"
    by (simp add: tryParse_def lessThan0_def)
  have "readMessage P (idleSession ms n []) =
      \<lparr>messageReader = \<lparr>buffer = [], contentLength = Num (- 1)\<rparr>,
       dataListeners = [n], endListeners = [n], errorListeners = [n], promises = ps @ [None]\<rparr>"
    unfolding i using t l by (simp add: readMessage_def tryParseFor_def)
  then show ?thesis
    using l unfolding ps_def [symmetric]
    by (simp add: emitEnd_def settle_def nth_append list_update_append)
qed

text \<open>
  The events of the reader loop are an orderly run, the chunks among them are the first
  chunks of the stream, and the loop stops when a call is pending and every chunk has been
  emitted, when a call is rejected, or when every call has been made.
\<close>

lemma clientLoop_orderly: "orderly P (clientLoop P n chunks s) s"
proof (induction P n chunks s rule: clientLoop.induct)
  case (1 P n chunks s)
  show ?case
  proof (cases "pending s")
    case True
    then show ?thesis using 1(1) by (subst clientLoop.simps) (simp split: list.splits)
  next
    case False
    then show ?thesis using 1(2) by (subst clientLoop.simps) (simp split: nat.splits)
  qed
qed

lemma clientLoop_events:
  "End \<notin> set (clientLoop P n chunks s) \<and> Error \<notin> set (clientLoop P n chunks s)"
proof (induction P n chunks s rule: clientLoop.induct)
  case (1 P n chunks s)
  show ?case
  proof (cases "pending s")
    case True
    then show ?thesis using 1(1) by (subst (1 2) clientLoop.simps) (simp split: list.splits)
  next
    case False
    then show ?thesis using 1(2) by (subst (1 2) clientLoop.simps) (simp split: nat.splits)
  qed
qed

lemma clientLoop_stops:
  "\<exists>rest. chunks = chunksOf (clientLoop P n chunks s) @ rest \<and>
          callsOf (clientLoop P n chunks s) \<le> n \<and>
          (pending (run P (clientLoop P n chunks s) s) \<longrightarrow> rest = []) \<and>
          (\<not> pending (run P (clientLoop P n chunks s) s) \<and>
           \<not> rejected (run P (clientLoop P n chunks s) s) \<longrightarrow>
             callsOf (clientLoop P n chunks s) = n)"
proof (induction P n chunks s rule: clientLoop.induct)
  case (1 P n chunks s)
  show ?case
  proof (cases "pending s")
    case p: True
    show ?thesis
    proof (cases chunks)
      case Nil
      then have "clientLoop P n chunks s = []" using p by (subst clientLoop.simps) simp
      then show ?thesis using p Nil by (simp add: run_def callsOf_def)
    next
      case (Cons chunk cs)
      define es where "es = clientLoop P n cs (emitData P chunk s)"
      have e: "clientLoop P n chunks s = Data chunk # es"
        using p Cons by (subst clientLoop.simps) (simp add: es_def)
      obtain rest where r: "cs = chunksOf es @ rest" "callsOf es \<le> n"
        "pending (run P es (emitData P chunk s)) \<longrightarrow> rest = []"
        "\<not> pending (run P es (emitData P chunk s)) \<and> \<not> rejected (run P es (emitData P chunk s))
           \<longrightarrow> callsOf es = n"
        using 1(1) [OF p Cons] unfolding es_def by blast
      have "run P (Data chunk # es) s = run P es (emitData P chunk s)" by (simp add: run_def)
      moreover have "callsOf (Data chunk # es) = callsOf es" by (simp add: callsOf_def)
      ultimately show ?thesis unfolding e using r Cons by auto
    qed
  next
    case np: False
    show ?thesis
    proof (cases "rejected s")
      case True
      then have "clientLoop P n chunks s = []" using np by (subst clientLoop.simps) simp
      then show ?thesis using np True by (simp add: run_def callsOf_def)
    next
      case nr: False
      show ?thesis
      proof (cases n)
        case 0
        then have "clientLoop P n chunks s = []" using np by (subst clientLoop.simps) simp
        then show ?thesis using np 0 by (simp add: run_def callsOf_def)
      next
        case (Suc k)
        define es where "es = clientLoop P k chunks (readMessage P s)"
        have e: "clientLoop P n chunks s = Call # es"
          using np nr Suc by (subst clientLoop.simps) (simp add: es_def)
        obtain rest where r: "chunks = chunksOf es @ rest" "callsOf es \<le> k"
          "pending (run P es (readMessage P s)) \<longrightarrow> rest = []"
          "\<not> pending (run P es (readMessage P s)) \<and> \<not> rejected (run P es (readMessage P s))
             \<longrightarrow> callsOf es = k"
          using 1(2) [OF np nr Suc] unfolding es_def by blast
        have "run P (Call # es) s = run P es (readMessage P s)" by (simp add: run_def)
        moreover have "callsOf (Call # es) = Suc (callsOf es)" by (simp add: callsOf_def)
        ultimately show ?thesis unfolding e using r Suc by auto
      qed
    qed
  qed
qed

lemma clientLoop_complete:
  assumes dec: "\<forall>h. list_all isAscii h \<longrightarrow> utf8Decode P h = h"
    and wf: "list_all2 (wellFormed P) fs ms"
    and stream: "concat chunks = concat (map frameBytes fs)"
    and ne: "[] \<notin> set chunks"
  shows "chunksOf (clientLoop P (length fs) chunks newSession) = chunks"
    and "callsOf (clientLoop P (length fs) chunks newSession) = length fs"
proof -
  define es where "es = clientLoop P (length fs) chunks newSession"
  obtain rest where r: "chunks = chunksOf es @ rest" "callsOf es \<le> length fs"
    "pending (run P es newSession) \<longrightarrow> rest = []"
    "\<not> pending (run P es newSession) \<and> \<not> rejected (run P es newSession)
       \<longrightarrow> callsOf es = length fs"
    using clientLoop_stops [of chunks P "length fs" newSession] unfolding es_def by blast
  have ord: "orderly P es newSession" unfolding es_def by (rule clientLoop_orderly)
  have ev: "End \<notin> set es \<and> Error \<notin> set es" unfolding es_def by (rule clientLoop_events)
  have s: "concat (chunksOf es) @ concat rest = concat (map frameBytes fs)"
    using stream r(1) by (metis concat_append)
  note inv = run_orderly [OF dec wf ord ev s r(2)]
  have "\<not> (\<exists>j g. callsOf es = Suc j \<and> run P es newSession = pendingSession fs ms j g \<and>
               concat (map frameBytes (take j fs)) @ g = concat (chunksOf es) \<and>
               length g < length (frameBytes (fs ! j)))"
  proof
    assume "\<exists>j g. callsOf es = Suc j \<and> run P es newSession = pendingSession fs ms j g \<and>
               concat (map frameBytes (take j fs)) @ g = concat (chunksOf es) \<and>
               length g < length (frameBytes (fs ! j))"
    then obtain j g where j: "callsOf es = Suc j"
      and p: "run P es newSession = pendingSession fs ms j g"
      and d: "concat (map frameBytes (take j fs)) @ g = concat (chunksOf es)"
      and g: "length g < length (frameBytes (fs ! j))"
      by blast
    have "rest = []" using r(3) p by simp
    then have "concat (map frameBytes (take j fs)) @ g @ [] = concat (map frameBytes fs)"
      using d s by simp
    moreover have "j < length fs" using j r(2) by simp
    ultimately show False using run_pendingSession [of j fs g "[]"] g by simp
  qed
  then obtain b where i: "run P es newSession = idleSession ms (callsOf es) b"
    and d: "concat (map frameBytes (take (callsOf es) fs)) @ b = concat (chunksOf es)"
    using inv by blast
  have c: "callsOf es = length fs" using r(4) i by simp
  have "concat (map frameBytes fs) @ b = concat (chunksOf es)" using d c by simp
  then have "(concat (map frameBytes fs) @ b) @ concat rest = concat (map frameBytes fs)"
    using s by simp
  then have "concat (map frameBytes fs) @ b @ concat rest = concat (map frameBytes fs) @ []"
    by simp
  then have "b @ concat rest = []" by (simp only: same_append_eq)
  then have "concat rest = []" by simp
  moreover have "[] \<notin> set rest" using ne r(1) by (metis Un_iff set_append)
  ultimately have "rest = []" by (cases rest) auto
  then show "chunksOf (clientLoop P (length fs) chunks newSession) = chunks"
    and "callsOf (clientLoop P (length fs) chunks newSession) = length fs"
    using r(1) c unfolding es_def by simp_all
qed

lemma writeMessage_frame:
  assumes enc: "\<forall>h c. list_all isAscii h \<longrightarrow> utf8Encode P (h @ c) = h @ utf8Encode P c"
    and s: "jsonStringify P m = Some s"
    and n: "\<not> isNullish P m"
  shows "writeMessage P m =
     Inr (frameBytes \<lparr>headersBefore = [], lengthDigits = digits (length (utf8Encode P s)),
                      payload = utf8Encode P s, headersAfter = []\<rparr>)"
proof -
  define cl where "cl = ''Content-Length: '' @ digits (length (utf8Encode P s))"
  have "list_all isDigit (digits (length (utf8Encode P s)))"
    using digits_decimal by blast
  then have "list_all isAscii cl"
    unfolding cl_def using contentLength_line by (simp add: list_all_iff)
  then have "list_all isAscii (cl @ [CR, LF, CR, LF])" by simp
  then have "utf8Encode P ((cl @ [CR, LF, CR, LF]) @ s) = (cl @ [CR, LF, CR, LF]) @ utf8Encode P s"
    using enc by blast
  then have e: "utf8Encode P (cl @ CR # LF # CR # LF # s) = cl @ CR # LF # CR # LF # utf8Encode P s"
    by simp
  have "writeMessage P m = Inr (utf8Encode P (cl @ CR # LF # CR # LF # s))"
    using s n by (simp add: writeMessage_def cl_def)
  moreover have "frameBytes \<lparr>headersBefore = [], lengthDigits = digits (length (utf8Encode P s)),
                      payload = utf8Encode P s, headersAfter = []\<rparr>
      = cl @ CR # LF # CR # LF # utf8Encode P s"
    by (simp add: frameBytes_def headerLines_def cl_def)
  ultimately show ?thesis using e by simp
qed

lemma read_written:
  assumes dec: "\<forall>h. list_all isAscii h \<longrightarrow> utf8Decode P h = h"
    and wf: "wellFormed P f m"
  shows "promises (run P [Call, Data (frameBytes f)] newSession) = [Some (Inr m)]"
proof -
  have wf1: "list_all2 (wellFormed P) [f] [m]" using wf by simp
  have n: "newSession = idleSession [m] 0 []"
    by (simp add: newSession_def idleSession_def newReader_def)
  have "[] @ frameBytes f = frameBytes ([f] ! 0) @ []" by simp
  then have "readMessage P (idleSession [m] 0 []) = pendingSession [f] [m] 0 []"
    using readMessage_idleSession [OF dec wf1, of 0 "[]" "frameBytes f" "[]"]
      frameBytes_not_Nil [of f]
    by simp
  then have "orderly P [Call, Data (frameBytes f)] newSession"
    unfolding n by simp
  then have "run P [Call, Data (frameBytes f)] newSession = idleSession [m] (length [f]) []"
    by (intro run_complete [OF dec wf1]) (simp_all add: callsOf_def)
  then show ?thesis by (simp add: idleSession_def)
qed

text \<open>
  C1 as stated fails.  The stream emits the frames of two messages in two chunks, the
  second before the program calls \<open>readMessage\<close> again: the first call returns the first
  message and removes its listeners, the second chunk finds no listener and is lost, and
  the second call does not return the second message; it is rejected when the stream
  ends, and is not settled before.
\<close>

theorem readMessage_counterexample:
  "writeMessage asciiPlatform ''{}''
     = Inr (frameBytes \<lparr>headersBefore = [], lengthDigits = ''2'', payload = ''{}'',
                        headersAfter = []\<rparr>)
   \<and> writeMessage asciiPlatform ''[1]''
     = Inr (frameBytes \<lparr>headersBefore = [], lengthDigits = ''3'', payload = ''[1]'',
                        headersAfter = []\<rparr>)
   \<and> promises (run asciiPlatform
        [Call,
         Data (frameBytes \<lparr>headersBefore = [], lengthDigits = ''2'', payload = ''{}'',
                           headersAfter = []\<rparr>),
         Data (frameBytes \<lparr>headersBefore = [], lengthDigits = ''3'', payload = ''[1]'',
                           headersAfter = []\<rparr>),
         Call] newSession)
     = [Some (Inr ''{}''), None]
   \<and> promises (run asciiPlatform
        [Call,
         Data (frameBytes \<lparr>headersBefore = [], lengthDigits = ''2'', payload = ''{}'',
                           headersAfter = []\<rparr>),
         Data (frameBytes \<lparr>headersBefore = [], lengthDigits = ''3'', payload = ''[1]'',
                           headersAfter = []\<rparr>),
         Call, End] newSession)
     = [Some (Inr ''{}''), Some (Inl ConnectionClosed)]"
  by (intro conjI; code_simp)

text \<open>
  C1, amended.  \<open>writeMessage\<close> writes a well-formed frame of the message, and the
  reader returns the message from it.  For a stream that is the concatenation of \<open>N\<close>
  well-formed frames, \<open>N\<close> successive \<open>readMessage\<close> calls return exactly the messages of
  the frames, in order, in every orderly run, in which each call is made when the last
  one is settled and each chunk is emitted while a call is pending; the bytes after a
  body stay in the buffer for the next call, and one more call is rejected at the end of
  the stream.  The reader loop gives such a run for every way of cutting the stream into
  chunks.  The platform is assumed to encode ASCII characters in UTF-8 as themselves, and
  to decode them so.
\<close>

theorem framing_round_trip:
  assumes enc: "\<forall>h c. list_all isAscii h \<longrightarrow> utf8Encode P (h @ c) = h @ utf8Encode P c"
    and dec: "\<forall>h. list_all isAscii h \<longrightarrow> utf8Decode P h = h"
    and wf: "list_all2 (wellFormed P) fs ms"
  shows "(\<forall>es. orderly P es newSession \<and> End \<notin> set es \<and> Error \<notin> set es \<and>
               concat (chunksOf es) = concat (map frameBytes fs) \<and> callsOf es = length fs \<longrightarrow>
            promises (run P es newSession) = map (\<lambda>m. Some (Inr m)) ms \<and>
            buffer (messageReader (run P es newSession)) = [] \<and>
            promises (run P (es @ [Call, End]) newSession)
              = map (\<lambda>m. Some (Inr m)) ms @ [Some (Inl ConnectionClosed)])
    \<and> (\<forall>chunks. concat chunks = concat (map frameBytes fs) \<and> [] \<notin> set chunks \<longrightarrow>
            orderly P (clientLoop P (length fs) chunks newSession) newSession \<and>
            chunksOf (clientLoop P (length fs) chunks newSession) = chunks \<and>
            callsOf (clientLoop P (length fs) chunks newSession) = length fs \<and>
            promises (run P (clientLoop P (length fs) chunks newSession) newSession)
              = map (\<lambda>m. Some (Inr m)) ms)
    \<and> (\<forall>m s. jsonStringify P m = Some s \<and> \<not> isNullish P m \<and>
              jsonParse P (utf8Decode P (utf8Encode P s)) = Some m \<longrightarrow>
          (\<exists>f. writeMessage P m = Inr (frameBytes f) \<and> wellFormed P f m \<and>
               promises (run P [Call, Data (frameBytes f)] newSession) = [Some (Inr m)]))"
proof (intro conjI allI impI)
  have len: "length ms = length fs" using wf by (simp add: list_all2_lengthD)
  {
    fix es
    assume a: "orderly P es newSession \<and> End \<notin> set es \<and> Error \<notin> set es \<and>
               concat (chunksOf es) = concat (map frameBytes fs) \<and> callsOf es = length fs"
    then have r: "run P es newSession = idleSession ms (length fs) []"
      by (intro run_complete [OF dec wf]) simp_all
    show "promises (run P es newSession) = map (\<lambda>m. Some (Inr m)) ms"
      unfolding r using len by (simp add: idleSession_def)
    show "buffer (messageReader (run P es newSession)) = []"
      unfolding r by (simp add: idleSession_def)
    have "run P (es @ [Call, End]) newSession = emitEnd (readMessage P (run P es newSession))"
      by (simp add: run_def)
    then show "promises (run P (es @ [Call, End]) newSession)
          = map (\<lambda>m. Some (Inr m)) ms @ [Some (Inl ConnectionClosed)]"
      unfolding r using end_of_stream [OF len] by simp
  }
  {
    fix chunks
    assume a: "concat chunks = concat (map frameBytes fs) \<and> [] \<notin> set chunks"
    define es where "es = clientLoop P (length fs) chunks newSession"
    show o: "orderly P (clientLoop P (length fs) chunks newSession) newSession"
      by (rule clientLoop_orderly)
    show c: "chunksOf (clientLoop P (length fs) chunks newSession) = chunks"
      and n: "callsOf (clientLoop P (length fs) chunks newSession) = length fs"
      using clientLoop_complete [OF dec wf] a by simp_all
    have "run P (clientLoop P (length fs) chunks newSession) newSession
            = idleSession ms (length fs) []"
      using o c n a clientLoop_events [of P "length fs" chunks newSession]
      by (intro run_complete [OF dec wf]) simp_all
    then show "promises (run P (clientLoop P (length fs) chunks newSession) newSession)
              = map (\<lambda>m. Some (Inr m)) ms"
      using len by (simp add: idleSession_def)
  }
  {
    fix m s
    assume a: "jsonStringify P m = Some s \<and> \<not> isNullish P m \<and>
                jsonParse P (utf8Decode P (utf8Encode P s)) = Some m"
    define f where "f = \<lparr>headersBefore = [], lengthDigits = digits (length (utf8Encode P s)),
                          payload = utf8Encode P s, headersAfter = []\<rparr>"
    have w: "writeMessage P m = Inr (frameBytes f)"
      unfolding f_def using a by (intro writeMessage_frame [OF enc]) simp_all
    have wf: "wellFormed P f m" using a digits_decimal by (simp add: wellFormed_def f_def)
    have "promises (run P [Call, Data (frameBytes f)] newSession) = [Some (Inr m)]"
      using dec wf by (rule read_written)
    then show "\<exists>f. writeMessage P m = Inr (frameBytes f) \<and> wellFormed P f m \<and>
                 promises (run P [Call, Data (frameBytes f)] newSession) = [Some (Inr m)]"
      using w wf by blast
  }
qed

theorem framing_round_trip_witness:
  "(let f1 = \<lparr>headersBefore = [''Content-Type: a/b''], lengthDigits = ''02'', payload = ''{}'',
              headersAfter = [''X: y'']\<rparr>;
        f2 = \<lparr>headersBefore = [], lengthDigits = ''3'', payload = ''[1]'', headersAfter = []\<rparr>;
        c1 = take 30 (frameBytes f1);
        c2 = drop 30 (frameBytes f1) @ frameBytes f2;
        es = [Call, Data c1, Data c2, Call]
    in list_all2 (wellFormed asciiPlatform) [f1, f2] [''{}'', ''[1]'']
       \<and> orderly asciiPlatform es newSession
       \<and> promises (run asciiPlatform es newSession) = [Some (Inr ''{}''), Some (Inr ''[1]'')]
       \<and> promises (run asciiPlatform (es @ [Call, End]) newSession)
           = [Some (Inr ''{}''), Some (Inr ''[1]''), Some (Inl ConnectionClosed)]
       \<and> clientLoop asciiPlatform 2 [c1, c2] newSession = es
       \<and> promises (run asciiPlatform (clientLoop asciiPlatform 2 [c1, c2] newSession) newSession)
           = [Some (Inr ''{}''), Some (Inr ''[1]'')])
   \<and> (\<exists>f. writeMessage asciiPlatform ''{}'' = Inr (frameBytes f) \<and>
          wellFormed asciiPlatform f ''{}'' \<and>
          promises (run asciiPlatform [Call, Data (frameBytes f)] newSession) = [Some (Inr ''{}'')])"
proof -
  define f1 where "f1 = \<lparr>headersBefore = [''Content-Type: a/b''], lengthDigits = ''02'',
                         payload = ''{}'', headersAfter = [''X: y'']\<rparr>"
  define f2 where "f2 = \<lparr>headersBefore = [], lengthDigits = ''3'', payload = ''[1]'',
                         headersAfter = []\<rparr>"
  define c1 where "c1 = take 30 (frameBytes f1)"
  define c2 where "c2 = drop 30 (frameBytes f1) @ frameBytes f2"
  define es where "es = [Call, Data c1, Data c2, Call]"
  have e: "\<forall>h c. list_all isAscii h \<longrightarrow>
             utf8Encode asciiPlatform (h @ c) = h @ utf8Encode asciiPlatform c"
    by (simp add: asciiPlatform_def)
  have d: "\<forall>h. list_all isAscii h \<longrightarrow> utf8Decode asciiPlatform h = h"
    by (simp add: asciiPlatform_def)
  have w: "list_all2 (wellFormed asciiPlatform) [f1, f2] [''{}'', ''[1]'']"
    unfolding f1_def f2_def by code_simp
  note t = framing_round_trip [OF e d w]
  have s: "concat (chunksOf es) = concat (map frameBytes [f1, f2])"
    unfolding es_def c1_def c2_def by simp
  have o: "orderly asciiPlatform es newSession"
    unfolding es_def c1_def c2_def f1_def f2_def by code_simp
  have n: "End \<notin> set es \<and> Error \<notin> set es" by (simp add: es_def)
  have c: "callsOf es = length [f1, f2]" by (simp add: es_def callsOf_def)
  have 1: "promises (run asciiPlatform es newSession) = [Some (Inr ''{}''), Some (Inr ''[1]'')]"
    and 2: "promises (run asciiPlatform (es @ [Call, End]) newSession)
           = [Some (Inr ''{}''), Some (Inr ''[1]''), Some (Inl ConnectionClosed)]"
    using t [THEN conjunct1, rule_format, of es] o n s c by simp_all
  have l: "clientLoop asciiPlatform 2 [c1, c2] newSession = es"
    unfolding es_def c1_def c2_def f1_def f2_def by code_simp
  have cs: "concat [c1, c2] = concat (map frameBytes [f1, f2]) \<and> [] \<notin> set [c1, c2]"
    unfolding c1_def c2_def f1_def f2_def by code_simp
  have 3: "promises (run asciiPlatform (clientLoop asciiPlatform 2 [c1, c2] newSession) newSession)
           = [Some (Inr ''{}''), Some (Inr ''[1]'')]"
    using t [THEN conjunct2, THEN conjunct1, rule_format, OF cs] by (simp add: numeral_2_eq_2)
  have a: "jsonStringify asciiPlatform ''{}'' = Some ''{}'' \<and> \<not> isNullish asciiPlatform ''{}'' \<and>
        jsonParse asciiPlatform (utf8Decode asciiPlatform (utf8Encode asciiPlatform ''{}'')) = Some ''{}''"
    by (simp add: asciiPlatform_def)
  note 4 = t [THEN conjunct2, THEN conjunct2, rule_format, OF a]
  show ?thesis
    unfolding Let_def
    using w o 1 2 l 3 4 unfolding es_def c1_def c2_def f1_def f2_def by blast
qed

end
